theory Spec2Isabelle
  imports Main "HOL-Library.List_Lexorder" "HOL-Library.Multiset"
begin

section \<open>Strings and paths\<close>

text \<open>
  A Python \<open>str\<close> is a sequence of Unicode code points: \<open>len\<close> counts code points and
  \<open>sorted\<close> compares strings code point by code point, a proper prefix being smaller.
  A string is therefore a list of code points, ordered lexicographically. The
  box-drawing characters of the source are U+2514, U+251C, U+2500 and U+2502.
\<close>

type_synonym pystr = "nat list"

definition str :: "string \<Rightarrow> pystr" where
  "str s = map of_char s"

definition startswith :: "pystr \<Rightarrow> pystr \<Rightarrow> bool" where
  "startswith s p = (take (length p) s = p)"

definition endswith :: "pystr \<Rightarrow> pystr \<Rightarrow> bool" where
  "endswith s suf = (length suf \<le> length s \<and> drop (length s - length suf) s = suf)"

text \<open>\<open>os.path.join\<close> and \<open>os.path.basename\<close> of the POSIX flavour, for two components.\<close>

definition join :: "pystr \<Rightarrow> pystr \<Rightarrow> pystr" where
  "join a b =
     (if startswith b (str ''/'') then b
      else if a = [] \<or> endswith a (str ''/'') then a @ b
      else a @ str ''/'' @ b)"

definition basename :: "pystr \<Rightarrow> pystr" where
  "basename p = rev (takeWhile (\<lambda>c. c \<noteq> 47) (rev p))"

section \<open>The filesystem as the traversal observes it\<close>

text \<open>
  \<open>os.listdir\<close> gives the names of a directory in the order the system delivers them
  or raises \<open>OSError\<close> (with its errno); \<open>os.path.isdir\<close> never raises;
  \<open>os.path.getsize\<close> gives a size in bytes or raises \<open>OSError\<close>. The answers do not
  change during a traversal.
\<close>

datatype exn = OSError nat

record filesystem =
  listdir :: "pystr \<Rightarrow> exn + pystr list"
  isdir :: "pystr \<Rightarrow> bool"
  getsize :: "pystr \<Rightarrow> exn + nat"

section \<open>The output sink\<close>

text \<open>
  The sink records the strings passed to \<open>file.write\<close>, in order; the text of the file
  is their concatenation. \<open>file.write\<close> is taken to accept every string. Every write
  of \<open>print_tree\<close> ends with a newline: a write is a line of the report, and a single
  line of text when no name holds a newline character (\<open>each_write_is_one_line\<close>).
\<close>

type_synonym sink = "pystr list"

definition file_write :: "sink \<Rightarrow> pystr \<Rightarrow> sink" where
  "file_write file s = file @ [s]"

datatype outcome = Returned sink | Raised exn sink

fun sink_of :: "outcome \<Rightarrow> sink" where
  "sink_of (Returned file) = file"
| "sink_of (Raised e file) = file"

section \<open>print_tree\<close>

definition retained :: "pystr \<Rightarrow> bool" where
  "retained e =
     (e \<notin> {str ''.git'', str ''.idea'', str ''out'', str ''build''}
      \<and> \<not> (endswith e (str ''.class'') \<or> endswith e (str ''.iml'')))"

definition connector :: "pystr list \<Rightarrow> nat \<Rightarrow> pystr" where
  "connector entries i =
     (if int i = int (length entries) - 1 then [0x2514, 0x2500, 0x2500, 0x20]
      else [0x251C, 0x2500, 0x2500, 0x20])"

definition extension :: "pystr list \<Rightarrow> nat \<Rightarrow> pystr" where
  "extension entries i =
     (if int i = int (length entries) - 1 then str ''    ''
      else [0x2502, 0x20, 0x20, 0x20])"

definition status :: "filesystem \<Rightarrow> pystr \<Rightarrow> pystr" where
  "status fs path =
     (case getsize fs path of
        Inr sz \<Rightarrow> if sz = 0 then str ''[EMPTY]'' else str ''[OK]''
      | Inl (OSError errno) \<Rightarrow> str ''[?]'')"

text \<open>
  The loop \<open>for i, entry in enumerate(entries)\<close>, over the pairs still to come;
  \<open>rec\<close> is the recursive call of \<open>print_tree\<close>. A call that does not return
  (\<open>None\<close>) or raises ends the loop.
\<close>

fun for_entries ::
  "(pystr \<Rightarrow> sink \<Rightarrow> pystr \<Rightarrow> outcome option) \<Rightarrow> filesystem \<Rightarrow> pystr \<Rightarrow> pystr
     \<Rightarrow> pystr list \<Rightarrow> (nat \<times> pystr) list \<Rightarrow> sink \<Rightarrow> outcome option" where
  "for_entries rec fs root prefix entries [] file = Some (Returned file)"
| "for_entries rec fs root prefix entries ((i, entry) # rest) file =
     (let path = join root entry
      in if isdir fs path then
           (case rec path
                   (file_write file (prefix @ connector entries i @ entry @ str ''/'' @ str ''\<newline>''))
                   (prefix @ extension entries i) of
              None \<Rightarrow> None
            | Some (Raised e file') \<Rightarrow> Some (Raised e file')
            | Some (Returned file') \<Rightarrow> for_entries rec fs root prefix entries rest file')
         else
           for_entries rec fs root prefix entries rest
             (file_write file (prefix @ connector entries i @ entry @ str '' ''
                                 @ status fs path @ str ''\<newline>'')))"

text \<open>
  \<open>print_tree\<close> with a bound on the depth of its recursion: \<open>None\<close> says that the call
  has not returned within that depth. The interpreter's own recursion limit is not
  modelled.
\<close>

primrec print_tree ::
  "nat \<Rightarrow> filesystem \<Rightarrow> pystr \<Rightarrow> sink \<Rightarrow> pystr \<Rightarrow> outcome option" where
  "print_tree 0 fs root file prefix = None"
| "print_tree (Suc fuel) fs root file prefix =
     (case listdir fs root of
        Inl e \<Rightarrow> Some (Raised e file)
      | Inr names \<Rightarrow>
          (let entries = filter retained (sort names)
           in for_entries (print_tree fuel fs) fs root prefix entries (enumerate 0 entries) file))"

section \<open>main\<close>

text \<open>
  What \<open>main\<close> reads from its surroundings: the argument vector, the formatted local
  time \<open>datetime.now().strftime("%Y-%m-%d %H:%M:%S")\<close>, \<open>os.path.abspath\<close> (which
  depends on the working directory), the error that \<open>os.makedirs(path, exist_ok=True)\<close>
  and \<open>open(path, "w", encoding="utf-8")\<close> raise on a path, if any, and the filesystem
  the traversal then observes.
\<close>

record environment =
  argv :: "pystr list"
  now :: pystr
  abspath :: "pystr \<Rightarrow> pystr"
  makedirs :: "pystr \<Rightarrow> exn option"
  open_w :: "pystr \<Rightarrow> exn option"
  tree :: filesystem

text \<open>
  What \<open>main\<close> does to its surroundings, in order: \<open>os.makedirs(path, exist_ok)\<close>,
  \<open>open(path, mode, encoding)\<close>, each \<open>f.write\<close>, the close of the file when the
  \<open>with\<close> block is left, and \<open>print\<close>. A run of \<open>main\<close> yields these events and the
  exception that leaves it, if any; \<open>None\<close> says that \<open>print_tree\<close> has not returned
  within the given depth.
\<close>

datatype event =
    Makedirs pystr bool
  | Open pystr pystr pystr
  | Write pystr
  | Close
  | Print pystr

definition main :: "nat \<Rightarrow> environment \<Rightarrow> (event list \<times> exn option) option" where
  "main fuel env =
     (let root = (if length (argv env) > 1 then argv env ! 1 else str ''.'');
          outdir = join root (str ''docs/'')
      in case makedirs env outdir of
           Some e \<Rightarrow> Some ([Makedirs outdir True], Some e)
         | None \<Rightarrow>
             (let outfile = join outdir (str ''project_tree.txt'');
                  opened = [Makedirs outdir True, Open outfile (str ''w'') (str ''utf-8'')]
              in case open_w env outfile of
                   Some e \<Rightarrow> Some (opened, Some e)
                 | None \<Rightarrow>
                     (let f = file_write []
                                (str ''Generated: '' @ now env @ str '' (local)\<newline>\<newline>'');
                          root_name = basename (abspath env root);
                          f = file_write f (root_name @ str ''/'' @ str ''\<newline>'')
                      in case print_tree fuel (tree env) root f [] of
                           None \<Rightarrow> None
                         | Some (Raised e f') \<Rightarrow>
                             Some (opened @ map Write f' @ [Close], Some e)
                         | Some (Returned f') \<Rightarrow>
                             Some (opened @ map Write f' @ [Close,
                                     Print (str ''Saved tree to '' @ outfile)], None))))"

text \<open>The text of the report: everything written, concatenated.\<close>

fun written :: "event list \<Rightarrow> pystr" where
  "written [] = []"
| "written (Write s # evs) = s @ written evs"
| "written (ev # evs) = written evs"

section \<open>Notions used to state the properties\<close>

text \<open>Appending to what is already in the sink.\<close>

fun prepend :: "sink \<Rightarrow> outcome \<Rightarrow> outcome" where
  "prepend file (Returned out) = Returned (file @ out)"
| "prepend file (Raised e out) = Raised e (file @ out)"

text \<open>
  The lines of one level. A call with prefix \<open>p\<close> writes its own entries as \<open>p\<close>
  followed by a connector, which starts with U+2514 or U+251C; everything written by
  the calls below it starts with \<open>p\<close> followed by an extension, which starts with a
  space or U+2502. So within the output of one call, the lines of its own level are
  those that carry a connector right after \<open>p\<close>.
\<close>

definition at_level :: "pystr \<Rightarrow> pystr \<Rightarrow> bool" where
  "at_level p l = (startswith l p \<and> length p < length l \<and> l ! length p \<in> {0x2514, 0x251C})"

text \<open>
  \<open>descends fs d xs\<close>: the names \<open>xs\<close> lead from directory \<open>d\<close> downwards, each one a
  retained entry of the listing of the directory reached so far, and each one a
  directory.
\<close>

fun descends :: "filesystem \<Rightarrow> pystr \<Rightarrow> pystr list \<Rightarrow> bool" where
  "descends fs d [] = True"
| "descends fs d (x # xs) =
     (case listdir fs d of
        Inl e \<Rightarrow> False
      | Inr names \<Rightarrow> x \<in> set names \<and> retained x \<and> isdir fs (join d x)
                     \<and> descends fs (join d x) xs)"

text \<open>
  A directory below which every chain of retained subdirectories is finite: no cycle
  is reachable, and since listings are finite the tree walked is finite.
\<close>

inductive finite_below :: "filesystem \<Rightarrow> pystr \<Rightarrow> bool" for fs :: filesystem where
  unlistable: "listdir fs d = Inl e \<Longrightarrow> finite_below fs d"
| listable: "listdir fs d = Inr names \<Longrightarrow>
     (\<And>x. x \<in> set names \<Longrightarrow> retained x \<Longrightarrow> isdir fs (join d x) \<Longrightarrow> finite_below fs (join d x))
     \<Longrightarrow> finite_below fs d"

text \<open>
  The line of one entry, and the block of one entry: its line followed by what the
  recursive call wrote for it.
\<close>

definition entry_line :: "filesystem \<Rightarrow> pystr \<Rightarrow> pystr \<Rightarrow> pystr list \<Rightarrow> nat \<times> pystr \<Rightarrow> pystr" where
  "entry_line fs root prefix entries ie =
     prefix @ connector entries (fst ie) @ snd ie
       @ (if isdir fs (join root (snd ie)) then str ''/''
          else str '' '' @ status fs (join root (snd ie)))
       @ str ''\<newline>''"

definition below :: "nat \<Rightarrow> filesystem \<Rightarrow> pystr \<Rightarrow> pystr \<Rightarrow> pystr list \<Rightarrow> nat \<times> pystr \<Rightarrow> sink" where
  "below fuel fs root prefix entries ie =
     (if isdir fs (join root (snd ie)) then
        (case print_tree fuel fs (join root (snd ie)) [] (prefix @ extension entries (fst ie)) of
           None \<Rightarrow> []
         | Some r \<Rightarrow> sink_of r)
      else [])"

text \<open>
  The shape of a line written below \<open>root\<close> with prefix \<open>prefix\<close>: the line of an entry
  \<open>e\<close> listed and retained in a directory reached from \<open>root\<close> through the retained
  directories \<open>es\<close>, indented by the prefix and one extension for each of \<open>es\<close>.
\<close>

definition shape :: "filesystem \<Rightarrow> pystr \<Rightarrow> pystr \<Rightarrow> pystr \<Rightarrow> bool" where
  "shape fs root prefix l =
     (\<exists>es exts e names entries i.
        descends fs root es \<and> length exts = length es
        \<and> set exts \<subseteq> {str ''    '', [0x2502, 0x20, 0x20, 0x20]}
        \<and> listdir fs (foldl join root es) = Inr names \<and> e \<in> set names \<and> retained e
        \<and> l = entry_line fs (foldl join root es) (prefix @ concat exts) entries (i, e))"

text \<open>How a run ended and how many lines it wrote.\<close>

fun ending :: "outcome \<Rightarrow> exn option \<times> nat" where
  "ending (Returned file) = (None, length file)"
| "ending (Raised e file) = (Some e, length file)"

section \<open>A concrete filesystem\<close>

text \<open>
  A small tree used to run the definitions: \<open>root\<close> holds two files, an entry whose
  size cannot be read, two directories and three excluded entries; \<open>top\<close> holds a
  file and a directory \<open>d\<close> that cannot be listed.
\<close>

definition example_fs :: filesystem where
  "example_fs =
     \<lparr> listdir = (\<lambda>p.
         if p = str ''root'' then
           Inr [str ''sub'', str ''b.txt'', str ''lib'', str ''a.txt'', str ''build'',
                str ''X.class'', str ''gone'']
         else if p = str ''root/lib'' then Inr [str ''m.txt'']
         else if p = str ''root/sub'' then Inr [str ''c.txt'', str ''.git'']
         else if p = str ''top'' then Inr [str ''z.txt'', str ''d'']
         else Inl (OSError 13)),
       isdir = (\<lambda>p. p \<in> {str ''root'', str ''root/lib'', str ''root/sub'', str ''root/build'',
                           str ''root/sub/.git'', str ''top'', str ''top/d''}),
       getsize = (\<lambda>p.
         if p = str ''root/a.txt'' then Inr 0
         else if p = str ''root/b.txt'' then Inr 5
         else if p = str ''root/lib/m.txt'' then Inr 1
         else if p = str ''root/sub/c.txt'' then Inr 3
         else Inl (OSError 2)) \<rparr>"

definition example_out :: sink where
  "example_out =
     [[0x251C, 0x2500, 0x2500, 0x20] @ str ''a.txt [EMPTY]\<newline>'',
      [0x251C, 0x2500, 0x2500, 0x20] @ str ''b.txt [OK]\<newline>'',
      [0x251C, 0x2500, 0x2500, 0x20] @ str ''gone [?]\<newline>'',
      [0x251C, 0x2500, 0x2500, 0x20] @ str ''lib/\<newline>'',
      [0x2502, 0x20, 0x20, 0x20] @ [0x2514, 0x2500, 0x2500, 0x20] @ str ''m.txt [OK]\<newline>'',
      [0x2514, 0x2500, 0x2500, 0x20] @ str ''sub/\<newline>'',
      str ''    '' @ [0x2514, 0x2500, 0x2500, 0x20] @ str ''c.txt [OK]\<newline>'']"

text \<open>
  Two runs of \<open>main\<close> on \<open>root\<close>: the second at another time, and with every
  listing delivered in the opposite order.
\<close>

definition example_env :: environment where
  "example_env =
     \<lparr> argv = [str ''DumpTree.py'', str ''root''],
       now = str ''2026-01-01 12:00:00'',
       abspath = (\<lambda>p. str ''/home/user/'' @ p),
       makedirs = (\<lambda>p. None),
       open_w = (\<lambda>p. None),
       tree = example_fs \<rparr>"

definition example_env_later :: environment where
  "example_env_later =
     example_env
       \<lparr> now := str ''2026-01-02 08:30:00'',
         tree := example_fs \<lparr> listdir := (\<lambda>p. map_sum id rev (listdir example_fs p)) \<rparr> \<rparr>"

text \<open>
  A filesystem with a cycle: every path is a directory that lists one entry \<open>a\<close>, as
  a symbolic link to the directory itself would make it.
\<close>

definition cyclic_fs :: filesystem where
  "cyclic_fs =
     \<lparr> listdir = (\<lambda>p. Inr [str ''a'']),
       isdir = (\<lambda>p. True),
       getsize = (\<lambda>p. Inr 0) \<rparr>"

section \<open>The sink is only appended to\<close>

lemma prepend_prepend: "prepend a (prepend b r) = prepend (a @ b) r"
  by (cases r) simp_all

lemma prepend_Nil: "prepend [] r = r"
  by (cases r) simp_all

lemma sink_of_prepend: "sink_of (prepend a r) = a @ sink_of r"
  by (cases r) simp_all

lemma for_entries_frame:
  assumes rec: "\<And>path file prefix. rec path file prefix = map_option (prepend file) (rec path [] prefix)"
  shows "for_entries rec fs root prefix entries rest file
         = map_option (prepend file) (for_entries rec fs root prefix entries rest [])"
proof (induction rest arbitrary: "file")
  case Nil
  show ?case by simp
next
  case (Cons ie rest)
  obtain i entry where ie: "ie = (i, entry)" by (cases ie)
  let ?path = "join root entry"
  show ?case
  proof (cases "isdir fs ?path")
    case False
    let ?l = "prefix @ connector entries i @ entry @ str '' '' @ status fs ?path @ str ''\<newline>''"
    have "for_entries rec fs root prefix entries (ie # rest) file
          = for_entries rec fs root prefix entries rest (file @ [?l])"
      using False by (simp add: ie file_write_def)
    also have "\<dots> = map_option (prepend (file @ [?l])) (for_entries rec fs root prefix entries rest [])"
      by (rule Cons.IH)
    also have "\<dots> = map_option (prepend file) (for_entries rec fs root prefix entries rest [?l])"
      by (subst (2) Cons.IH) (simp add: option.map_comp comp_def prepend_prepend)
    also have "\<dots> = map_option (prepend file) (for_entries rec fs root prefix entries (ie # rest) [])"
      using False by (simp add: ie file_write_def)
    finally show ?thesis .
  next
    case True
    let ?l = "prefix @ connector entries i @ entry @ str ''/'' @ str ''\<newline>''"
    let ?q = "prefix @ extension entries i"
    show ?thesis
    proof (cases "rec ?path [] ?q")
      case None
      then show ?thesis
        using True rec [of ?path "file @ [?l]" ?q] rec [of ?path "[?l]" ?q]
        by (simp add: ie file_write_def)
    next
      case (Some r)
      show ?thesis
      proof (cases r)
        case (Raised e out)
        then show ?thesis
          using True Some rec [of ?path "file @ [?l]" ?q] rec [of ?path "[?l]" ?q]
          by (simp add: ie file_write_def)
      next
        case (Returned out)
        have "for_entries rec fs root prefix entries (ie # rest) file
              = for_entries rec fs root prefix entries rest (file @ [?l] @ out)"
          using True Some Returned rec [of ?path "file @ [?l]" ?q] by (simp add: ie file_write_def)
        also have "\<dots> = map_option (prepend (file @ [?l] @ out)) (for_entries rec fs root prefix entries rest [])"
          by (rule Cons.IH)
        also have "\<dots> = map_option (prepend file) (for_entries rec fs root prefix entries rest ([?l] @ out))"
          by (subst (2) Cons.IH) (simp add: option.map_comp comp_def prepend_prepend)
        also have "\<dots> = map_option (prepend file) (for_entries rec fs root prefix entries (ie # rest) [])"
          using True Some Returned rec [of ?path "[?l]" ?q] by (simp add: ie file_write_def)
        finally show ?thesis .
      qed
    qed
  qed
qed

lemma print_tree_frame:
  "print_tree fuel fs root file prefix = map_option (prepend file) (print_tree fuel fs root [] prefix)"
proof (induction fuel arbitrary: root "file" prefix)
  case 0
  show ?case by simp
next
  case (Suc fuel)
  show ?case
  proof (cases "listdir fs root")
    case (Inl e)
    then show ?thesis by simp
  next
    case (Inr names)
    have "for_entries (print_tree fuel fs) fs root prefix es ies file
          = map_option (prepend file) (for_entries (print_tree fuel fs) fs root prefix es ies [])"
      for es ies
      by (rule for_entries_frame) (rule Suc.IH)
    with Inr show ?thesis by (simp add: Let_def)
  qed
qed

text \<open>The loop from an empty sink, one entry at a time.\<close>

lemma loop_Cons:
  "for_entries (print_tree fuel fs) fs root prefix entries (ie # rest) [] =
     (if isdir fs (join root (snd ie)) then
        (case print_tree fuel fs (join root (snd ie)) [] (prefix @ extension entries (fst ie)) of
           None \<Rightarrow> None
         | Some (Raised e out) \<Rightarrow> Some (Raised e (entry_line fs root prefix entries ie # out))
         | Some (Returned out) \<Rightarrow>
             map_option (prepend (entry_line fs root prefix entries ie # out))
               (for_entries (print_tree fuel fs) fs root prefix entries rest []))
      else
        map_option (prepend [entry_line fs root prefix entries ie])
          (for_entries (print_tree fuel fs) fs root prefix entries rest []))"
proof -
  obtain i entry where ie: "ie = (i, entry)" by (cases ie)
  let ?rec = "print_tree fuel fs"
  have fr: "for_entries ?rec fs root prefix entries rest f
            = map_option (prepend f) (for_entries ?rec fs root prefix entries rest [])" for f
    by (rule for_entries_frame) (rule print_tree_frame)
  show ?thesis
  proof (cases "isdir fs (join root entry)")
    case False
    then show ?thesis
      by (simp add: ie file_write_def entry_line_def fr [of "[_]"])
  next
    case True
    let ?l = "prefix @ connector entries i @ entry @ str ''/'' @ str ''\<newline>''"
    have l: "entry_line fs root prefix entries ie = ?l"
      using True by (simp add: entry_line_def ie)
    show ?thesis
    proof (cases "print_tree fuel fs (join root entry) [] (prefix @ extension entries i)")
      case None
      then show ?thesis
        using True print_tree_frame [of fuel fs "join root entry" "[?l]" "prefix @ extension entries i"]
        by (simp add: ie file_write_def)
    next
      case (Some r)
      then show ?thesis
        using True l print_tree_frame [of fuel fs "join root entry" "[?l]" "prefix @ extension entries i"]
        by (cases r) (simp_all add: ie file_write_def fr [of "_ # _"])
    qed
  qed
qed

lemma loop_Returned:
  "for_entries (print_tree fuel fs) fs root prefix entries rest [] = Some (Returned out) \<Longrightarrow>
     out = concat (map (\<lambda>ie. entry_line fs root prefix entries ie
                              # below fuel fs root prefix entries ie) rest)
     \<and> (\<forall>ie\<in>set rest. isdir fs (join root (snd ie)) \<longrightarrow>
           (\<exists>sub. print_tree fuel fs (join root (snd ie)) []
                    (prefix @ extension entries (fst ie)) = Some (Returned sub)))"
proof (induction rest arbitrary: out)
  case Nil
  then show ?case by simp
next
  case (Cons ie rest)
  let ?loop = "for_entries (print_tree fuel fs) fs root prefix entries"
  let ?l = "entry_line fs root prefix entries ie"
  show ?case
  proof (cases "isdir fs (join root (snd ie))")
    case False
    with Cons.prems obtain r where r: "?loop rest [] = Some r" and out: "Returned out = prepend [?l] r"
      by (auto simp: loop_Cons)
    from out obtain out' where r': "r = Returned out'" and out': "out = ?l # out'"
      by (cases r) simp_all
    from Cons.IH [of out'] r r' False out' show ?thesis
      by (simp add: below_def)
  next
    case True
    let ?sub = "print_tree fuel fs (join root (snd ie)) [] (prefix @ extension entries (fst ie))"
    from Cons.prems True obtain s where s: "?sub = Some (Returned s)"
      by (auto simp: loop_Cons split: option.splits outcome.splits)
    with Cons.prems True obtain r where r: "?loop rest [] = Some r"
        and out: "Returned out = prepend (?l # s) r"
      by (auto simp: loop_Cons)
    from out obtain out' where r': "r = Returned out'" and out': "out = ?l # s @ out'"
      by (cases r) simp_all
    from Cons.IH [of out'] r r' True s out' show ?thesis
      by (simp add: below_def)
  qed
qed

lemma loop_origin:
  "for_entries (print_tree fuel fs) fs root prefix entries rest [] = Some r \<Longrightarrow>
   l \<in> set (sink_of r) \<Longrightarrow>
     \<exists>ie\<in>set rest. l = entry_line fs root prefix entries ie
                    \<or> l \<in> set (below fuel fs root prefix entries ie)"
proof (induction rest arbitrary: r)
  case Nil
  then show ?case by auto
next
  case (Cons ie rest)
  let ?loop = "for_entries (print_tree fuel fs) fs root prefix entries"
  let ?l = "entry_line fs root prefix entries ie"
  show ?case
  proof (cases "isdir fs (join root (snd ie))")
    case False
    with Cons.prems(1) obtain r' where r': "?loop rest [] = Some r'" and r: "r = prepend [?l] r'"
      by (auto simp: loop_Cons)
    from Cons.prems(2) r have "l = ?l \<or> l \<in> set (sink_of r')"
      by (simp add: sink_of_prepend)
    with Cons.IH [OF r'] show ?thesis by auto
  next
    case True
    let ?sub = "print_tree fuel fs (join root (snd ie)) [] (prefix @ extension entries (fst ie))"
    from Cons.prems(1) True obtain rs where rs: "?sub = Some rs"
      by (auto simp: loop_Cons split: option.splits)
    have b: "below fuel fs root prefix entries ie = sink_of rs"
      using True rs by (simp add: below_def)
    show ?thesis
    proof (cases rs)
      case (Raised e s)
      with Cons.prems True rs have "l = ?l \<or> l \<in> set s"
        by (auto simp: loop_Cons)
      with b Raised show ?thesis by auto
    next
      case (Returned s)
      with Cons.prems(1) True rs obtain r' where r': "?loop rest [] = Some r'"
          and r: "r = prepend (?l # s) r'"
        by (auto simp: loop_Cons)
      from Cons.prems(2) r have "l = ?l \<or> l \<in> set s \<or> l \<in> set (sink_of r')"
        by (auto simp: sink_of_prepend)
      with Cons.IH [OF r'] b Returned show ?thesis by auto
    qed
  qed
qed

section \<open>What a call writes\<close>

lemma print_tree_Suc_Nil:
  "listdir fs root = Inr names \<Longrightarrow>
   print_tree (Suc fuel) fs root [] prefix =
     for_entries (print_tree fuel fs) fs root prefix (filter retained (sort names))
       (enumerate 0 (filter retained (sort names))) []"
  by (simp add: Let_def)

lemma extension_cases:
  "extension entries i = str ''    '' \<or> extension entries i = [0x2502, 0x20, 0x20, 0x20]"
  by (simp add: extension_def)

lemma connector_cases:
  "connector entries i = [0x2514, 0x2500, 0x2500, 0x20]
   \<or> connector entries i = [0x251C, 0x2500, 0x2500, 0x20]"
  by (simp add: connector_def)

lemma set_enumerate_snd: "ie \<in> set (enumerate n xs) \<Longrightarrow> snd ie \<in> set xs"
  by (cases ie) (auto simp: in_set_enumerate_eq)

lemma shape_entry:
  "listdir fs root = Inr names \<Longrightarrow> snd ie \<in> set names \<Longrightarrow> retained (snd ie) \<Longrightarrow>
   shape fs root prefix (entry_line fs root prefix entries ie)"
  unfolding shape_def
  apply (rule exI [of _ "[]"], rule exI [of _ "[]"], rule exI [of _ "snd ie"],
         rule exI [of _ names], rule exI [of _ entries], rule exI [of _ "fst ie"])
  apply simp
  done

lemma shape_step:
  assumes "shape fs (join root x) (prefix @ ext) l"
      and "listdir fs root = Inr names" "x \<in> set names" "retained x" "isdir fs (join root x)"
      and "ext = str ''    '' \<or> ext = [0x2502, 0x20, 0x20, 0x20]"
  shows "shape fs root prefix l"
proof -
  from assms(1) obtain es exts e names' entries i where
      d: "descends fs (join root x) es" and len: "length exts = length es"
      and exts: "set exts \<subseteq> {str ''    '', [0x2502, 0x20, 0x20, 0x20]}"
      and lst: "listdir fs (foldl join (join root x) es) = Inr names'" "e \<in> set names'" "retained e"
      and l: "l = entry_line fs (foldl join (join root x) es) ((prefix @ ext) @ concat exts) entries (i, e)"
    unfolding shape_def by blast
  have "descends fs root (x # es)" using d assms(2-5) by simp
  moreover have "length (ext # exts) = length (x # es)" using len by simp
  moreover have "set (ext # exts) \<subseteq> {str ''    '', [0x2502, 0x20, 0x20, 0x20]}"
    using exts assms(6) by auto
  moreover have "listdir fs (foldl join root (x # es)) = Inr names'" using lst(1) by simp
  moreover have "l = entry_line fs (foldl join root (x # es)) (prefix @ concat (ext # exts)) entries (i, e)"
    using l by simp
  ultimately show ?thesis
    unfolding shape_def using lst(2,3) by blast
qed

lemma print_tree_shape:
  "print_tree fuel fs root [] prefix = Some r \<Longrightarrow> l \<in> set (sink_of r) \<Longrightarrow>
   shape fs root prefix l"
proof (induction fuel arbitrary: root prefix r l)
  case 0
  then show ?case by simp
next
  case (Suc fuel)
  show ?case
  proof (cases "listdir fs root")
    case (Inl e)
    with Suc.prems show ?thesis by auto
  next
    case (Inr names)
    let ?entries = "filter retained (sort names)"
    from Suc.prems(1) Inr
    have loop: "for_entries (print_tree fuel fs) fs root prefix ?entries (enumerate 0 ?entries) [] = Some r"
      by (simp add: Let_def)
    from loop_origin [OF loop Suc.prems(2)] obtain ie where
        ie: "ie \<in> set (enumerate 0 ?entries)"
        and l: "l = entry_line fs root prefix ?entries ie \<or> l \<in> set (below fuel fs root prefix ?entries ie)"
      by blast
    from ie have mem: "snd ie \<in> set names" "retained (snd ie)"
      using set_enumerate_snd [OF ie] by auto
    from l show ?thesis
    proof
      assume "l = entry_line fs root prefix ?entries ie"
      with Inr mem show ?thesis by (simp add: shape_entry)
    next
      assume b: "l \<in> set (below fuel fs root prefix ?entries ie)"
      then have dir: "isdir fs (join root (snd ie))"
        by (cases "isdir fs (join root (snd ie))") (simp_all add: below_def)
      let ?sub = "print_tree fuel fs (join root (snd ie)) [] (prefix @ extension ?entries (fst ie))"
      from b dir have "\<exists>r'. ?sub = Some r' \<and> l \<in> set (sink_of r')"
        by (cases ?sub) (simp_all add: below_def)
      then obtain r' where r': "?sub = Some r'" and lr: "l \<in> set (sink_of r')"
        by blast
      from Suc.IH [OF r' lr]
      show ?thesis
        by (rule shape_step) (use Inr mem dir extension_cases in auto)
    qed
  qed
qed

section \<open>Running the concrete filesystem\<close>

lemmas eval_defs = str_def retained_def endswith_def startswith_def join_def connector_def
  extension_def status_def file_write_def enumerate_eq_zip

lemma example_listdir:
  "listdir example_fs p =
     (if p = str ''root'' then
           Inr [str ''sub'', str ''b.txt'', str ''lib'', str ''a.txt'', str ''build'',
                str ''X.class'', str ''gone'']
         else if p = str ''root/lib'' then Inr [str ''m.txt'']
         else if p = str ''root/sub'' then Inr [str ''c.txt'', str ''.git'']
         else if p = str ''top'' then Inr [str ''z.txt'', str ''d'']
         else Inl (OSError 13))"
  by (simp add: example_fs_def)

lemma example_isdir:
  "isdir example_fs p = (p \<in> {str ''root'', str ''root/lib'', str ''root/sub'', str ''root/build'',
                           str ''root/sub/.git'', str ''top'', str ''top/d''})"
  by (simp add: example_fs_def)

lemma example_getsize:
  "getsize example_fs p = (
         if p = str ''root/a.txt'' then Inr 0
         else if p = str ''root/b.txt'' then Inr 5
         else if p = str ''root/lib/m.txt'' then Inr 1
         else if p = str ''root/sub/c.txt'' then Inr 3
         else Inl (OSError 2))"
  by (simp add: example_fs_def)


lemma example_lib:
  "print_tree (Suc 0) example_fs (str ''root/lib'') [] q
   = Some (Returned [q @ [0x2514, 0x2500, 0x2500, 0x20] @ str ''m.txt [OK]\<newline>''])"
  by (simp add: example_listdir example_isdir example_getsize eval_defs)

lemma example_sub:
  "print_tree (Suc 0) example_fs (str ''root/sub'') [] q
   = Some (Returned [q @ [0x2514, 0x2500, 0x2500, 0x20] @ str ''c.txt [OK]\<newline>''])"
  by (simp add: example_listdir example_isdir example_getsize eval_defs)

lemma example_run:
  "print_tree 2 example_fs (str ''root'') [] [] = Some (Returned example_out)"
proof -
  have lib: "print_tree (Suc 0) example_fs [114, 111, 111, 116, 47, 108, 105, 98] [] q
             = Some (Returned [q @ [0x2514, 0x2500, 0x2500, 0x20] @ str ''m.txt [OK]\<newline>''])" for q
    using example_lib [of q] by (simp add: str_def del: print_tree.simps)
  have sub: "print_tree (Suc 0) example_fs [114, 111, 111, 116, 47, 115, 117, 98] [] q
             = Some (Returned [q @ [0x2514, 0x2500, 0x2500, 0x20] @ str ''c.txt [OK]\<newline>''])" for q
    using example_sub [of q] by (simp add: str_def del: print_tree.simps)
  have "print_tree (Suc (Suc 0)) example_fs (str ''root'') [] [] = Some (Returned example_out)"
    by (simp add: print_tree_Suc_Nil [where fuel = "Suc 0" and names = "[str ''sub'', str ''b.txt'', str ''lib'', str ''a.txt'', str ''build'',
                str ''X.class'', str ''gone'']"] loop_Cons entry_line_def lib sub
          example_listdir example_isdir example_getsize example_out_def eval_defs
          del: for_entries.simps(2) print_tree.simps)
  then show ?thesis by (simp only: numeral_2_eq_2)
qed

section \<open>Every line written\<close>

lemma print_tree_new_lines:
  assumes "print_tree fuel fs root file prefix = Some r"
  shows "\<exists>r0. print_tree fuel fs root [] prefix = Some r0 \<and> r = prepend file r0
              \<and> drop (length file) (sink_of r) = sink_of r0"
proof -
  from assms print_tree_frame [of fuel fs root "file" prefix]
  obtain r0 where "print_tree fuel fs root [] prefix = Some r0" "r = prepend file r0"
    by (cases "print_tree fuel fs root [] prefix") auto
  then show ?thesis by (auto simp: sink_of_prepend)
qed

lemma descends_retained: "descends fs d es \<Longrightarrow> x \<in> set es \<Longrightarrow> retained x"
  by (induction es arbitrary: d) (auto split: sum.splits)

lemma status_cases:
  "status fs path = str ''[EMPTY]'' \<or> status fs path = str ''[OK]'' \<or> status fs path = str ''[?]''"
  by (auto simp: status_def split: sum.splits exn.splits)

lemma written_line_explicit:
  assumes "print_tree fuel fs root file prefix = Some r"
      and "l \<in> set (drop (length file) (sink_of r))"
  shows "\<exists>es exts e names c.
           descends fs root es \<and> length exts = length es
           \<and> set exts \<subseteq> {str ''    '', [0x2502, 0x20, 0x20, 0x20]}
           \<and> listdir fs (foldl join root es) = Inr names \<and> e \<in> set names \<and> retained e
           \<and> c \<in> {[0x2514, 0x2500, 0x2500, 0x20], [0x251C, 0x2500, 0x2500, 0x20]}
           \<and> l = prefix @ concat exts @ c @ e
                   @ (if isdir fs (join (foldl join root es) e) then str ''/''
                      else str '' '' @ status fs (join (foldl join root es) e))
                   @ str ''\<newline>''"
proof -
  from print_tree_new_lines [OF assms(1)] assms(2)
  obtain r0 where "print_tree fuel fs root [] prefix = Some r0" "l \<in> set (sink_of r0)"
    by auto
  then have "shape fs root prefix l" by (rule print_tree_shape)
  then obtain es exts e names entries i where
      *: "descends fs root es" "length exts = length es"
         "set exts \<subseteq> {str ''    '', [0x2502, 0x20, 0x20, 0x20]}"
         "listdir fs (foldl join root es) = Inr names" "e \<in> set names" "retained e"
      and l: "l = entry_line fs (foldl join root es) (prefix @ concat exts) entries (i, e)"
    unfolding shape_def by blast
  have c: "connector entries i \<in> {[0x2514, 0x2500, 0x2500, 0x20], [0x251C, 0x2500, 0x2500, 0x20]}"
    using connector_cases [of entries i] by auto
  from l have "l = prefix @ concat exts @ connector entries i @ e
                   @ (if isdir fs (join (foldl join root es) e) then str ''/''
                      else str '' '' @ status fs (join (foldl join root es) e))
                   @ str ''\<newline>''"
    by (simp add: entry_line_def)
  with * c show ?thesis by blast
qed

lemma length_concat_exts:
  "set exts \<subseteq> {str ''    '', [0x2502, 0x20, 0x20, 0x20]} \<Longrightarrow> length (concat exts) = 4 * length exts"
  by (induction exts) (auto simp: str_def)

text \<open>
  One write is one line of the report, as long as no name holds a newline character.
\<close>

lemma each_write_is_one_line:
  assumes "print_tree fuel fs root file prefix = Some r"
      and "l \<in> set (drop (length file) (sink_of r))"
      and "10 \<notin> set prefix"
      and "\<forall>p names. listdir fs p = Inr names \<longrightarrow> (\<forall>e\<in>set names. 10 \<notin> set e)"
  shows "\<exists>t. l = t @ str ''\<newline>'' \<and> 10 \<notin> set t"
proof -
  from written_line_explicit [OF assms(1,2)]
  obtain es exts e names c where
      exts: "set exts \<subseteq> {str ''    '', [0x2502, 0x20, 0x20, 0x20]}"
      and lst: "listdir fs (foldl join root es) = Inr names" "e \<in> set names"
      and c: "c \<in> {[0x2514, 0x2500, 0x2500, 0x20], [0x251C, 0x2500, 0x2500, 0x20]}"
      and l: "l = prefix @ concat exts @ c @ e
                   @ (if isdir fs (join (foldl join root es) e) then str ''/''
                      else str '' '' @ status fs (join (foldl join root es) e))
                   @ str ''\<newline>''"
    by blast
  let ?mid = "if isdir fs (join (foldl join root es) e) then str ''/''
              else str '' '' @ status fs (join (foldl join root es) e)"
  have e: "10 \<notin> set e" using assms(4) lst by blast
  have x: "10 \<notin> set (concat exts)" using exts by (auto simp: str_def)
  have k: "10 \<notin> set c" using c by auto
  have m: "10 \<notin> set ?mid"
    using status_cases [of fs "join (foldl join root es) e"] by (auto simp: str_def)
  have "l = (prefix @ concat exts @ c @ e @ ?mid) @ str ''\<newline>''" using l by simp
  moreover have "10 \<notin> set (prefix @ concat exts @ c @ e @ ?mid)"
    using assms(3) e x k m by simp
  ultimately show ?thesis by blast
qed

text \<open>
  C2. Every line that a call of \<open>print_tree\<close> adds to the sink, at whatever depth it is
  written, is the line of an entry \<open>e\<close> found in the listing of a directory that is
  reached from \<open>root\<close> through the directories \<open>es\<close>, and neither \<open>e\<close> nor any of
  \<open>es\<close> is named \<open>.git\<close>, \<open>.idea\<close>, \<open>out\<close> or \<open>build\<close> or ends with \<open>.class\<close> or
  \<open>.iml\<close>: an excluded entry is dropped at every level before anything is written
  for it, and nothing below an excluded directory is written either.
\<close>

theorem excluded_entries_never_rendered:
  assumes "print_tree fuel fs root file prefix = Some r"
      and "l \<in> set (drop (length file) (sink_of r))"
  shows "\<exists>es e names indent c tail.
           l = indent @ c @ e @ tail
           \<and> descends fs root es
           \<and> listdir fs (foldl join root es) = Inr names \<and> e \<in> set names
           \<and> c \<in> {[0x2514, 0x2500, 0x2500, 0x20], [0x251C, 0x2500, 0x2500, 0x20]}
           \<and> tail \<in> {str ''/\<newline>'', str '' [EMPTY]\<newline>'', str '' [OK]\<newline>'',
                       str '' [?]\<newline>''}
           \<and> (\<forall>x\<in>set (es @ [e]).
                  x \<notin> {str ''.git'', str ''.idea'', str ''out'', str ''build''}
                  \<and> \<not> endswith x (str ''.class'') \<and> \<not> endswith x (str ''.iml''))"
proof -
  from written_line_explicit [OF assms]
  obtain es exts e names c where
      d: "descends fs root es"
      and lst: "listdir fs (foldl join root es) = Inr names" "e \<in> set names" "retained e"
      and c: "c \<in> {[0x2514, 0x2500, 0x2500, 0x20], [0x251C, 0x2500, 0x2500, 0x20]}"
      and l: "l = prefix @ concat exts @ c @ e
                   @ (if isdir fs (join (foldl join root es) e) then str ''/''
                      else str '' '' @ status fs (join (foldl join root es) e))
                   @ str ''\<newline>''"
    by blast
  let ?tail = "(if isdir fs (join (foldl join root es) e) then str ''/''
                else str '' '' @ status fs (join (foldl join root es) e)) @ str ''\<newline>''"
  have l': "l = (prefix @ concat exts) @ c @ e @ ?tail" using l by simp
  have tail: "?tail \<in> {str ''/\<newline>'', str '' [EMPTY]\<newline>'', str '' [OK]\<newline>'',
                       str '' [?]\<newline>''}"
    using status_cases [of fs "join (foldl join root es) e"] by (auto simp: str_def)
  have "\<forall>x\<in>set (es @ [e]). retained x"
    using descends_retained [OF d] lst(3) by auto
  then have ret: "\<forall>x\<in>set (es @ [e]).
                  x \<notin> {str ''.git'', str ''.idea'', str ''out'', str ''build''}
                  \<and> \<not> endswith x (str ''.class'') \<and> \<not> endswith x (str ''.iml'')"
    by (simp add: retained_def)
  from l' d lst(1,2) c tail ret show ?thesis by blast
qed

theorem excluded_entries_never_rendered_witness:
  "print_tree 2 example_fs (str ''root'') [] [] = Some (Returned example_out)
   \<and> str ''    '' @ [0x2514, 0x2500, 0x2500, 0x20] @ str ''c.txt [OK]\<newline>''
       \<in> set (drop (length ([] :: sink)) (sink_of (Returned example_out)))
   \<and> (\<exists>es e names indent c tail.
           str ''    '' @ [0x2514, 0x2500, 0x2500, 0x20] @ str ''c.txt [OK]\<newline>''
             = indent @ c @ e @ tail
           \<and> descends example_fs (str ''root'') es
           \<and> listdir example_fs (foldl join (str ''root'') es) = Inr names \<and> e \<in> set names
           \<and> c \<in> {[0x2514, 0x2500, 0x2500, 0x20], [0x251C, 0x2500, 0x2500, 0x20]}
           \<and> tail \<in> {str ''/\<newline>'', str '' [EMPTY]\<newline>'', str '' [OK]\<newline>'',
                       str '' [?]\<newline>''}
           \<and> (\<forall>x\<in>set (es @ [e]).
                  x \<notin> {str ''.git'', str ''.idea'', str ''out'', str ''build''}
                  \<and> \<not> endswith x (str ''.class'') \<and> \<not> endswith x (str ''.iml'')))"
  (is "?A \<and> ?B \<and> ?C")
proof -
  have a: ?A by (rule example_run)
  have b: ?B by (simp add: example_out_def)
  from excluded_entries_never_rendered [OF a b] have ?C .
  with a b show ?thesis by (intro conjI)
qed

text \<open>
  C7. Every line that a call of \<open>print_tree\<close> adds to the sink is the line of an entry
  \<open>e\<close> of a directory reached from \<open>root\<close> through the directories \<open>es\<close>, the
  ancestors between the entry and \<open>root\<close>; what precedes its connector is the prefix
  of the call followed by one extension of four characters for each of \<open>es\<close>. Called
  with the empty prefix, as \<open>main\<close> does, the indentation of a file line is four times
  the number of its ancestor directories below the root.
\<close>

theorem indentation_four_per_ancestor:
  assumes "print_tree fuel fs root file prefix = Some r"
      and "l \<in> set (drop (length file) (sink_of r))"
  shows "\<exists>es e names exts c tail.
           l = (prefix @ concat exts) @ c @ e @ tail
           \<and> descends fs root es
           \<and> listdir fs (foldl join root es) = Inr names \<and> e \<in> set names
           \<and> c \<in> {[0x2514, 0x2500, 0x2500, 0x20], [0x251C, 0x2500, 0x2500, 0x20]}
           \<and> tail = (if isdir fs (foldl join root (es @ [e])) then str ''/''
                      else str '' '' @ status fs (foldl join root (es @ [e]))) @ str ''\<newline>''
           \<and> length exts = length es
           \<and> (\<forall>x\<in>set exts. x \<in> {str ''    '', [0x2502, 0x20, 0x20, 0x20]} \<and> length x = 4)
           \<and> length (prefix @ concat exts) = length prefix + 4 * length es"
proof -
  from written_line_explicit [OF assms]
  obtain es exts e names c where
      d: "descends fs root es" and len: "length exts = length es"
      and exts: "set exts \<subseteq> {str ''    '', [0x2502, 0x20, 0x20, 0x20]}"
      and lst: "listdir fs (foldl join root es) = Inr names" "e \<in> set names"
      and c: "c \<in> {[0x2514, 0x2500, 0x2500, 0x20], [0x251C, 0x2500, 0x2500, 0x20]}"
      and l: "l = prefix @ concat exts @ c @ e
                   @ (if isdir fs (join (foldl join root es) e) then str ''/''
                      else str '' '' @ status fs (join (foldl join root es) e))
                   @ str ''\<newline>''"
    by blast
  let ?tail = "(if isdir fs (foldl join root (es @ [e])) then str ''/''
                else str '' '' @ status fs (foldl join root (es @ [e]))) @ str ''\<newline>''"
  have l': "l = (prefix @ concat exts) @ c @ e @ ?tail" using l by simp
  have four: "\<forall>x\<in>set exts. x \<in> {str ''    '', [0x2502, 0x20, 0x20, 0x20]} \<and> length x = 4"
    using exts by (auto simp: str_def)
  have "length (prefix @ concat exts) = length prefix + 4 * length es"
    using length_concat_exts [OF exts] len by simp
  with l' d lst c len four show ?thesis by blast
qed

theorem indentation_four_per_ancestor_witness:
  "print_tree 2 example_fs (str ''root'') [] [] = Some (Returned example_out)
   \<and> [0x2502, 0x20, 0x20, 0x20] @ [0x2514, 0x2500, 0x2500, 0x20] @ str ''m.txt [OK]\<newline>''
       \<in> set (drop (length ([] :: sink)) (sink_of (Returned example_out)))
   \<and> (\<exists>es e names exts c tail.
           [0x2502, 0x20, 0x20, 0x20] @ [0x2514, 0x2500, 0x2500, 0x20] @ str ''m.txt [OK]\<newline>''
             = ([] @ concat exts) @ c @ e @ tail
           \<and> descends example_fs (str ''root'') es
           \<and> listdir example_fs (foldl join (str ''root'') es) = Inr names \<and> e \<in> set names
           \<and> c \<in> {[0x2514, 0x2500, 0x2500, 0x20], [0x251C, 0x2500, 0x2500, 0x20]}
           \<and> tail = (if isdir example_fs (foldl join (str ''root'') (es @ [e])) then str ''/''
                      else str '' '' @ status example_fs (foldl join (str ''root'') (es @ [e])))
                     @ str ''\<newline>''
           \<and> length exts = length es
           \<and> (\<forall>x\<in>set exts. x \<in> {str ''    '', [0x2502, 0x20, 0x20, 0x20]} \<and> length x = 4)
           \<and> length ([] @ concat exts) = length ([] :: pystr) + 4 * length es)"
  (is "?A \<and> ?B \<and> ?C")
proof -
  have a: ?A by (rule example_run)
  have b: ?B by (simp add: example_out_def)
  from indentation_four_per_ancestor [OF a b] have ?C .
  with a b show ?thesis by (intro conjI)
qed

section \<open>The lines of one level\<close>

lemma at_level_entry_line: "at_level prefix (entry_line fs root prefix entries ie)"
  using connector_cases [of entries "fst ie"]
  by (auto simp: at_level_def entry_line_def startswith_def nth_append)

lemma lines_start_with_prefix:
  assumes "print_tree fuel fs d [] q = Some r" and "l \<in> set (sink_of r)"
  shows "\<exists>t. l = q @ t \<and> t \<noteq> []"
proof -
  from written_line_explicit [of fuel fs d "[]" q r l] assms
  obtain exts c e t where "l = q @ concat exts @ c @ e @ t"
      and "c \<in> {[0x2514, 0x2500, 0x2500, 0x20], [0x251C, 0x2500, 0x2500, 0x20]}"
    by auto
  then have "l = q @ (concat exts @ c @ e @ t)" "concat exts @ c @ e @ t \<noteq> []"
    by auto
  then show ?thesis by blast
qed

lemma not_at_level_below:
  assumes "l \<in> set (below fuel fs root prefix entries ie)"
  shows "\<not> at_level prefix l"
proof -
  let ?ext = "extension entries (fst ie)"
  let ?sub = "print_tree fuel fs (join root (snd ie)) [] (prefix @ ?ext)"
  from assms have dir: "isdir fs (join root (snd ie))"
    by (cases "isdir fs (join root (snd ie))") (simp_all add: below_def)
  with assms have "\<exists>r. ?sub = Some r \<and> l \<in> set (sink_of r)"
    by (cases ?sub) (simp_all add: below_def)
  then obtain r where "?sub = Some r" "l \<in> set (sink_of r)" by blast
  from lines_start_with_prefix [OF this] obtain t where l: "l = (prefix @ ?ext) @ t"
    by blast
  have "l ! length prefix = ?ext ! 0"
    using extension_cases [of entries "fst ie"] by (auto simp: l nth_append str_def)
  moreover have "?ext ! 0 \<notin> {0x2514, 0x251C}"
    using extension_cases [of entries "fst ie"] by (auto simp: str_def)
  ultimately show ?thesis by (simp add: at_level_def)
qed

lemma filter_at_level_blocks:
  "filter (at_level prefix)
     (concat (map (\<lambda>ie. entry_line fs root prefix entries ie
                          # below fuel fs root prefix entries ie) ies))
   = map (entry_line fs root prefix entries) ies"
proof (induction ies)
  case Nil
  show ?case by simp
next
  case (Cons ie ies)
  have "filter (at_level prefix) (below fuel fs root prefix entries ie) = []"
    using not_at_level_below [of _ fuel fs root prefix entries ie]
    by (auto simp: filter_empty_conv)
  with Cons show ?case by (simp add: at_level_entry_line)
qed

text \<open>What a call that returns has added to the sink.\<close>

lemma print_tree_Returned:
  assumes "print_tree fuel fs root file prefix = Some (Returned file')"
      and "listdir fs root = Inr names"
  shows "\<exists>n. fuel = Suc n
           \<and> drop (length file) file'
               = concat (map (\<lambda>ie. entry_line fs root prefix (filter retained (sort names)) ie
                                    # below n fs root prefix (filter retained (sort names)) ie)
                           (enumerate 0 (filter retained (sort names))))
           \<and> file' = file @ drop (length file) file'
           \<and> (\<forall>ie\<in>set (enumerate 0 (filter retained (sort names))).
                 isdir fs (join root (snd ie)) \<longrightarrow>
                 (\<exists>sub. print_tree n fs (join root (snd ie)) []
                          (prefix @ extension (filter retained (sort names)) (fst ie))
                        = Some (Returned sub)))"
proof -
  let ?entries = "filter retained (sort names)"
  from assms(1) obtain n where n: "fuel = Suc n" by (cases fuel) simp_all
  from print_tree_new_lines [OF assms(1)] obtain r0 where
      r0: "print_tree fuel fs root [] prefix = Some r0" "Returned file' = prepend file r0"
          "drop (length file) (sink_of (Returned file')) = sink_of r0"
    by blast
  from r0(2) obtain out where out: "r0 = Returned out" "file' = file @ out"
    by (cases r0) simp_all
  from r0(1) out(1) n assms(2)
  have "for_entries (print_tree n fs) fs root prefix ?entries (enumerate 0 ?entries) []
        = Some (Returned out)"
    by (simp add: Let_def)
  from loop_Returned [OF this] out(2) n show ?thesis by simp
qed

lemma level_lines:
  assumes "print_tree fuel fs root file prefix = Some (Returned file')"
      and "listdir fs root = Inr names"
  shows "filter (at_level prefix) (drop (length file) file')
         = map (entry_line fs root prefix (filter retained (sort names)))
             (enumerate 0 (filter retained (sort names)))"
  using print_tree_Returned [OF assms] by (auto simp: filter_at_level_blocks)

lemma level_line_nth:
  assumes "print_tree fuel fs root file prefix = Some (Returned file')"
      and "listdir fs root = Inr names"
      and "i < length (filter retained (sort names))"
  shows "filter (at_level prefix) (drop (length file) file') ! i
         = entry_line fs root prefix (filter retained (sort names))
             (i, filter retained (sort names) ! i)"
  using assms(3) by (simp add: level_lines [OF assms(1,2)] nth_enumerate_eq)

lemma entries_strictly_sorted:
  "distinct names \<Longrightarrow> sorted_wrt (<) (filter retained (sort names))"
  by (simp add: sorted_wrt_filter strict_sorted_iff)

lemma entry_line_tail:
  "\<exists>c tail. entry_line fs root prefix entries (i, e) = prefix @ c @ e @ tail
      \<and> c \<in> {[0x2514, 0x2500, 0x2500, 0x20], [0x251C, 0x2500, 0x2500, 0x20]}
      \<and> tail \<in> {str ''/\<newline>'', str '' [EMPTY]\<newline>'', str '' [OK]\<newline>'',
                  str '' [?]\<newline>''}"
proof -
  let ?tail = "(if isdir fs (join root e) then str ''/''
                else str '' '' @ status fs (join root e)) @ str ''\<newline>''"
  have "entry_line fs root prefix entries (i, e) = prefix @ connector entries i @ e @ ?tail"
    by (simp add: entry_line_def)
  moreover have "?tail \<in> {str ''/\<newline>'', str '' [EMPTY]\<newline>'', str '' [OK]\<newline>'',
                  str '' [?]\<newline>''}"
    using status_cases [of fs "join root e"] by (auto simp: str_def)
  moreover have "connector entries i \<in> {[0x2514, 0x2500, 0x2500, 0x20], [0x251C, 0x2500, 0x2500, 0x20]}"
    using connector_cases [of entries i] by auto
  ultimately show ?thesis by blast
qed

text \<open>
  C1. When a call of \<open>print_tree\<close> on a directory returns, the lines of that level among
  what it added to the sink (those carrying a connector right after the call's
  prefix) are as many as the entries of the listing that pass the filter, and the
  \<open>i\<close>-th of them is the line of the \<open>i\<close>-th retained name in strictly ascending
  lexicographic order. A directory listing holds no name twice.
\<close>

theorem one_line_per_retained_entry_in_order:
  assumes "print_tree fuel fs root file prefix = Some (Returned file')"
      and "listdir fs root = Inr names"
      and "distinct names"
  shows "\<exists>es. set es = {e \<in> set names. retained e}
            \<and> sorted_wrt (<) es
            \<and> length (filter (at_level prefix) (drop (length file) file')) = length es
            \<and> length (filter (at_level prefix) (drop (length file) file'))
                = card {e \<in> set names. retained e}
            \<and> (\<forall>i<length es. \<exists>c tail.
                  filter (at_level prefix) (drop (length file) file') ! i
                    = prefix @ c @ es ! i @ tail
                  \<and> c \<in> {[0x2514, 0x2500, 0x2500, 0x20], [0x251C, 0x2500, 0x2500, 0x20]}
                  \<and> tail \<in> {str ''/\<newline>'', str '' [EMPTY]\<newline>'', str '' [OK]\<newline>'',
                              str '' [?]\<newline>''})"
proof -
  let ?es = "filter retained (sort names)"
  let ?lines = "filter (at_level prefix) (drop (length file) file')"
  have s: "set ?es = {e \<in> set names. retained e}" by auto
  have srt: "sorted_wrt (<) ?es" using assms(3) by (rule entries_strictly_sorted)
  have len: "length ?lines = length ?es"
    by (simp add: level_lines [OF assms(1,2)])
  have "distinct ?es" using assms(3) by simp
  then have "card (set ?es) = length ?es" by (rule distinct_card)
  with s len have crd: "length ?lines = card {e \<in> set names. retained e}" by simp
  have nth: "\<forall>i<length ?es. \<exists>c tail.
                  ?lines ! i = prefix @ c @ ?es ! i @ tail
                  \<and> c \<in> {[0x2514, 0x2500, 0x2500, 0x20], [0x251C, 0x2500, 0x2500, 0x20]}
                  \<and> tail \<in> {str ''/\<newline>'', str '' [EMPTY]\<newline>'', str '' [OK]\<newline>'',
                              str '' [?]\<newline>''}"
  proof (intro allI impI)
    fix i assume "i < length ?es"
    from level_line_nth [OF assms(1,2) this] entry_line_tail [of fs root prefix ?es i "?es ! i"]
    show "\<exists>c tail. ?lines ! i = prefix @ c @ ?es ! i @ tail
                  \<and> c \<in> {[0x2514, 0x2500, 0x2500, 0x20], [0x251C, 0x2500, 0x2500, 0x20]}
                  \<and> tail \<in> {str ''/\<newline>'', str '' [EMPTY]\<newline>'', str '' [OK]\<newline>'',
                              str '' [?]\<newline>''}"
      by simp
  qed
  from s srt len crd nth show ?thesis by blast
qed

theorem one_line_per_retained_entry_in_order_witness:
  "print_tree 2 example_fs (str ''root'') [] [] = Some (Returned example_out)
   \<and> listdir example_fs (str ''root'')
       = Inr [str ''sub'', str ''b.txt'', str ''lib'', str ''a.txt'', str ''build'',
              str ''X.class'', str ''gone'']
   \<and> distinct [str ''sub'', str ''b.txt'', str ''lib'', str ''a.txt'', str ''build'',
                str ''X.class'', str ''gone'']
   \<and> (\<exists>es. set es = {e \<in> set [str ''sub'', str ''b.txt'', str ''lib'', str ''a.txt'',
                                 str ''build'', str ''X.class'', str ''gone'']. retained e}
            \<and> sorted_wrt (<) es
            \<and> length (filter (at_level []) (drop (length ([] :: sink)) example_out)) = length es
            \<and> length (filter (at_level []) (drop (length ([] :: sink)) example_out))
                = card {e \<in> set [str ''sub'', str ''b.txt'', str ''lib'', str ''a.txt'',
                                 str ''build'', str ''X.class'', str ''gone'']. retained e}
            \<and> (\<forall>i<length es. \<exists>c tail.
                  filter (at_level []) (drop (length ([] :: sink)) example_out) ! i
                    = [] @ c @ es ! i @ tail
                  \<and> c \<in> {[0x2514, 0x2500, 0x2500, 0x20], [0x251C, 0x2500, 0x2500, 0x20]}
                  \<and> tail \<in> {str ''/\<newline>'', str '' [EMPTY]\<newline>'', str '' [OK]\<newline>'',
                              str '' [?]\<newline>''}))"
  (is "?A \<and> ?B \<and> ?C \<and> ?D")
proof -
  have a: ?A by (rule example_run)
  have b: ?B by (simp add: example_listdir)
  have c: ?C by (simp add: str_def)
  from one_line_per_retained_entry_in_order [OF a b c] have ?D .
  with a b c show ?thesis by (intro conjI)
qed

lemma connector_of_entry_line:
  "take 4 (drop (length prefix) (entry_line fs root prefix entries ie)) = connector entries (fst ie)"
  using connector_cases [of entries "fst ie"] by (auto simp: entry_line_def)

lemma connector_nat:
  "i < length entries \<Longrightarrow>
   connector entries i = (if i = length entries - 1 then [0x2514, 0x2500, 0x2500, 0x20]
                          else [0x251C, 0x2500, 0x2500, 0x20])"
  by (auto simp: connector_def)

lemma extension_nat:
  "i < length entries \<Longrightarrow>
   extension entries i = (if i = length entries - 1 then str ''    ''
                          else [0x2502, 0x20, 0x20, 0x20])"
  by (auto simp: extension_def)

lemma length_retained_sort:
  "length (filter retained (sort names)) = length (filter retained names)"
proof -
  have "mset (filter retained (sort names)) = mset (filter retained names)"
    by simp
  then show ?thesis by (rule mset_eq_length)
qed

lemma filter_only_last:
  assumes "xs \<noteq> []" and "\<And>i. i < length xs \<Longrightarrow> P (xs ! i) \<longleftrightarrow> i = length xs - 1"
  shows "filter P xs = [last xs]"
proof -
  have xs: "xs = butlast xs @ [last xs]" using assms(1) by simp
  have "\<not> P x" if "x \<in> set (butlast xs)" for x
  proof -
    from that obtain i where i: "i < length (butlast xs)" "x = butlast xs ! i"
      by (auto simp: in_set_conv_nth)
    then have "x = xs ! i" "i < length xs" "i \<noteq> length xs - 1"
      by (simp_all add: nth_butlast)
    with assms(2) show ?thesis by blast
  qed
  then have b: "filter P (butlast xs) = []" by (auto simp: filter_empty_conv)
  have "P (last xs)"
    using assms by (simp add: last_conv_nth)
  with b have "filter P (butlast xs @ [last xs]) = [last xs]" by simp
  with xs show ?thesis by simp
qed

lemma last_sorted_Max:
  fixes xs :: "'a :: linorder list"
  assumes "sorted xs" "xs \<noteq> []"
  shows "last xs = Max (set xs)"
proof -
  have "y \<le> last xs" if "y \<in> set xs" for y
  proof -
    from that obtain i where "i < length xs" "y = xs ! i" by (auto simp: in_set_conv_nth)
    with assms show ?thesis
      by (simp add: last_conv_nth sorted_nth_mono)
  qed
  moreover have "last xs \<in> set xs" using assms(2) by simp
  ultimately show ?thesis by (intro Max_eqI [symmetric]) auto
qed

text \<open>
  C3. When a call of \<open>print_tree\<close> on a directory returns, the lines of that level are
  as many as the retained entries, \<open>n\<close>; the four characters after the prefix in the
  \<open>i\<close>-th of them are U+2514 U+2500 U+2500 space when \<open>i = n - 1\<close> and
  U+251C U+2500 U+2500 space otherwise. So at a level that has entries exactly one
  line carries the first connector: the last one, which is the line of the greatest
  retained name.
\<close>

theorem last_entry_gets_corner_connector:
  assumes "print_tree fuel fs root file prefix = Some (Returned file')"
      and "listdir fs root = Inr names"
      and "lines = filter (at_level prefix) (drop (length file) file')"
  shows "length lines = length (filter retained names)
         \<and> (\<forall>i<length lines.
               take 4 (drop (length prefix) (lines ! i))
               = (if i = length lines - 1 then [0x2514, 0x2500, 0x2500, 0x20]
                  else [0x251C, 0x2500, 0x2500, 0x20]))
         \<and> (lines \<noteq> [] \<longrightarrow>
               filter (\<lambda>l. take 4 (drop (length prefix) l) = [0x2514, 0x2500, 0x2500, 0x20]) lines
                 = [last lines]
               \<and> (\<exists>tail. last lines
                     = prefix @ [0x2514, 0x2500, 0x2500, 0x20]
                         @ Max {e \<in> set names. retained e} @ tail))"
proof -
  let ?es = "filter retained (sort names)"
  let ?last = "[0x2514, 0x2500, 0x2500, 0x20] :: pystr"
  let ?mid = "[0x251C, 0x2500, 0x2500, 0x20] :: pystr"
  have lines: "lines = map (entry_line fs root prefix ?es) (enumerate 0 ?es)"
    using level_lines [OF assms(1,2)] assms(3) by simp
  then have len: "length lines = length ?es" by simp
  have nth: "take 4 (drop (length prefix) (lines ! i))
             = (if i = length lines - 1 then ?last else ?mid)" if "i < length lines" for i
  proof -
    from that len have i: "i < length ?es" by simp
    then have "lines ! i = entry_line fs root prefix ?es (i, ?es ! i)"
      by (simp add: lines nth_enumerate_eq)
    then show ?thesis
      using connector_nat [OF i] len by (simp add: connector_of_entry_line)
  qed
  have one: "filter (\<lambda>l. take 4 (drop (length prefix) l) = ?last) lines = [last lines]
             \<and> (\<exists>tail. last lines = prefix @ ?last @ Max {e \<in> set names. retained e} @ tail)"
    if ne: "lines \<noteq> []"
  proof
    show "filter (\<lambda>l. take 4 (drop (length prefix) l) = ?last) lines = [last lines]"
      using ne by (rule filter_only_last) (simp add: nth)
  next
    from ne len have es: "?es \<noteq> []" by auto
    let ?i = "length ?es - 1"
    from es have i: "?i < length ?es" by (simp add: length_greater_0_conv)
    have "last lines = lines ! ?i" using ne len by (simp add: last_conv_nth)
    also have "\<dots> = entry_line fs root prefix ?es (?i, ?es ! ?i)"
      using i by (simp add: lines nth_enumerate_eq)
    finally have l: "last lines = entry_line fs root prefix ?es (?i, last ?es)"
      using es by (simp add: last_conv_nth)
    have "sorted ?es" by (simp add: sorted_wrt_filter)
    then have "last ?es = Max (set ?es)" using es by (rule last_sorted_Max)
    also have "set ?es = {e \<in> set names. retained e}" by auto
    finally have m: "last ?es = Max {e \<in> set names. retained e}" .
    have "connector ?es ?i = ?last" using connector_nat [OF i] by simp
    with l m show "\<exists>tail. last lines = prefix @ ?last @ Max {e \<in> set names. retained e} @ tail"
      by (simp add: entry_line_def)
  qed
  from len nth one show ?thesis
    by (simp add: length_retained_sort)
qed

theorem last_entry_gets_corner_connector_witness:
  "print_tree 2 example_fs (str ''root'') [] [] = Some (Returned example_out)
   \<and> listdir example_fs (str ''root'')
       = Inr [str ''sub'', str ''b.txt'', str ''lib'', str ''a.txt'', str ''build'',
              str ''X.class'', str ''gone'']
   \<and> filter (at_level []) (drop (length ([] :: sink)) example_out) \<noteq> []
   \<and> length (filter (at_level []) (drop (length ([] :: sink)) example_out))
       = length (filter retained [str ''sub'', str ''b.txt'', str ''lib'', str ''a.txt'',
                                  str ''build'', str ''X.class'', str ''gone''])
   \<and> take 4 (drop (length ([] :: pystr)) (filter (at_level []) (drop (length ([] :: sink)) example_out) ! 0)) = [0x251C, 0x2500, 0x2500, 0x20]
   \<and> take 4 (drop (length ([] :: pystr)) (filter (at_level []) (drop (length ([] :: sink)) example_out) ! 4)) = [0x2514, 0x2500, 0x2500, 0x20]
   \<and> filter (\<lambda>l. take 4 (drop (length ([] :: pystr)) l) = [0x2514, 0x2500, 0x2500, 0x20])
         (filter (at_level []) (drop (length ([] :: sink)) example_out))
       = [last (filter (at_level []) (drop (length ([] :: sink)) example_out))]
   \<and> (\<exists>tail. last (filter (at_level []) (drop (length ([] :: sink)) example_out))
          = [] @ [0x2514, 0x2500, 0x2500, 0x20]
              @ Max {e \<in> set [str ''sub'', str ''b.txt'', str ''lib'', str ''a.txt'',
                               str ''build'', str ''X.class'', str ''gone'']. retained e} @ tail)"
  (is "?A \<and> ?B \<and> ?C \<and> ?D \<and> ?E \<and> ?F \<and> ?G \<and> ?H")
proof -
  let ?names = "[str ''sub'', str ''b.txt'', str ''lib'', str ''a.txt'', str ''build'',
                 str ''X.class'', str ''gone'']"
  have a: ?A by (rule example_run)
  have b: ?B by (simp add: example_listdir)
  have c: ?C by (simp add: example_out_def at_level_def startswith_def)
  note t = last_entry_gets_corner_connector [OF a b refl]
  have d: ?D by (rule t [THEN conjunct1])
  have "length (filter retained ?names) = 5" by (simp add: eval_defs)
  with d have len: "length (filter (at_level []) (drop (length ([] :: sink)) example_out)) = 5" by simp
  have e: ?E using t [THEN conjunct2, THEN conjunct1, rule_format, of 0] len c by simp
  have f: ?F using t [THEN conjunct2, THEN conjunct1, rule_format, of 4] len by simp
  note last = t [THEN conjunct2, THEN conjunct2, THEN mp, OF c]
  have g: ?G by (rule last [THEN conjunct1])
  have h: ?H by (rule last [THEN conjunct2])
  show ?thesis
    by (rule conjI [OF a conjI [OF b conjI [OF c conjI [OF d conjI [OF e conjI [OF f
          conjI [OF g h]]]]]]])
qed

lemma example_entries:
  "filter retained (sort [str ''sub'', str ''b.txt'', str ''lib'', str ''a.txt'', str ''build'',
                          str ''X.class'', str ''gone''])
   = [str ''a.txt'', str ''b.txt'', str ''gone'', str ''lib'', str ''sub'']"
  by (simp add: eval_defs)

text \<open>
  C5. When a call of \<open>print_tree\<close> on a directory returns, the line of that level for a
  retained entry that is not a directory is the prefix, the connector of its
  position, the name, a space, the status and a newline; the status is \<open>[EMPTY]\<close> when
  \<open>getsize\<close> gives 0, \<open>[OK]\<close> when it gives any other size (sizes are natural
  numbers, so 1 or more), and \<open>[?]\<close> when it raises \<open>OSError\<close>.
\<close>

theorem file_line_shows_status:
  assumes "print_tree fuel fs root file prefix = Some (Returned file')"
      and "listdir fs root = Inr names"
      and "entries = filter retained (sort names)"
      and "i < length entries"
      and "\<not> isdir fs (join root (entries ! i))"
  shows "filter (at_level prefix) (drop (length file) file') ! i
         = prefix
           @ (if i = length entries - 1 then [0x2514, 0x2500, 0x2500, 0x20]
              else [0x251C, 0x2500, 0x2500, 0x20])
           @ entries ! i @ str '' ''
           @ (case getsize fs (join root (entries ! i)) of
                Inr sz \<Rightarrow> if sz = 0 then str ''[EMPTY]'' else str ''[OK]''
              | Inl e \<Rightarrow> str ''[?]'')
           @ str ''\<newline>''"
proof -
  have st: "status fs p = (case getsize fs p of
                Inr sz \<Rightarrow> if sz = 0 then str ''[EMPTY]'' else str ''[OK]''
              | Inl e \<Rightarrow> str ''[?]'')" for p
    by (auto simp: status_def split: sum.splits exn.splits)
  from assms(3,4) have i: "i < length (filter retained (sort names))" by simp
  from level_line_nth [OF assms(1,2) i] assms(3,5) connector_nat [OF assms(4)] st
  show ?thesis
    by (simp add: entry_line_def)
qed

theorem file_line_shows_status_witness:
  "print_tree 2 example_fs (str ''root'') [] [] = Some (Returned example_out)
   \<and> getsize example_fs (join (str ''root'') (str ''a.txt'')) = Inr 0
   \<and> filter (at_level []) (drop (length ([] :: sink)) example_out) ! 0
       = [0x251C, 0x2500, 0x2500, 0x20] @ str ''a.txt [EMPTY]\<newline>''
   \<and> getsize example_fs (join (str ''root'') (str ''b.txt'')) = Inr 5
   \<and> filter (at_level []) (drop (length ([] :: sink)) example_out) ! 1
       = [0x251C, 0x2500, 0x2500, 0x20] @ str ''b.txt [OK]\<newline>''
   \<and> getsize example_fs (join (str ''root'') (str ''gone'')) = Inl (OSError 2)
   \<and> filter (at_level []) (drop (length ([] :: sink)) example_out) ! 2
       = [0x251C, 0x2500, 0x2500, 0x20] @ str ''gone [?]\<newline>''"
  (is "?A \<and> ?S0 \<and> ?L0 \<and> ?S1 \<and> ?L1 \<and> ?S2 \<and> ?L2")
proof -
  let ?names = "[str ''sub'', str ''b.txt'', str ''lib'', str ''a.txt'', str ''build'',
                 str ''X.class'', str ''gone'']"
  have a: ?A by (rule example_run)
  have b: "listdir example_fs (str ''root'') = Inr ?names" by (simp add: example_listdir)
  have s0: ?S0 and s1: ?S1 and s2: ?S2
    by (simp_all add: example_getsize join_def startswith_def endswith_def str_def)
  have l0: ?L0
    using file_line_shows_status [OF a b refl, of 0, unfolded example_entries] s0
    by (simp add: example_isdir join_def startswith_def endswith_def str_def)
  have l1: ?L1
    using file_line_shows_status [OF a b refl, of 1, unfolded example_entries] s1
    by (simp add: example_isdir join_def startswith_def endswith_def str_def)
  have l2: ?L2
    using file_line_shows_status [OF a b refl, of 2, unfolded example_entries] s2
    by (simp add: example_isdir join_def startswith_def endswith_def str_def)
  from a s0 l0 s1 l1 s2 l2 show ?thesis by (intro conjI)
qed

text \<open>
  C4. When a call of \<open>print_tree\<close> returns and its \<open>i\<close>-th retained entry is a
  directory, what the call added to the sink splits into three parts around the line
  prefix + connector + name + \<open>/\<close>: before it, the first \<open>i\<close> lines of this level with
  what belongs to them; right after it, all that the recursive call on the entry
  wrote, the call being made on the sink as it stood with the prefix extended by four
  spaces (last entry) or U+2502 and three spaces (otherwise), and returning; and after
  that, the lines of the entries that follow. No line of this level lies inside the
  middle part: the subdirectory is rendered completely before the next sibling.
\<close>

theorem directory_line_then_subtree:
  assumes "print_tree (Suc fuel) fs root file prefix = Some (Returned file')"
      and "listdir fs root = Inr names"
      and "entries = filter retained (sort names)"
      and "i < length entries"
      and "isdir fs (join root (entries ! i))"
      and "line = prefix @ (if i = length entries - 1 then [0x2514, 0x2500, 0x2500, 0x20]
                            else [0x251C, 0x2500, 0x2500, 0x20])
                    @ entries ! i @ str ''/'' @ str ''\<newline>''"
      and "deeper = prefix @ (if i = length entries - 1 then str ''    ''
                              else [0x2502, 0x20, 0x20, 0x20])"
  shows "\<exists>before sub after.
           file' = file @ before @ [line] @ sub @ after
           \<and> print_tree fuel fs (join root (entries ! i)) (file @ before @ [line]) deeper
               = Some (Returned (file @ before @ [line] @ sub))
           \<and> filter (at_level prefix) before
               = take i (filter (at_level prefix) (drop (length file) file'))
           \<and> filter (at_level prefix) sub = []
           \<and> filter (at_level prefix) after
               = drop (Suc i) (filter (at_level prefix) (drop (length file) file'))"
proof -
  let ?ies = "enumerate 0 entries"
  let ?block = "\<lambda>ie. entry_line fs root prefix entries ie # below fuel fs root prefix entries ie"
  let ?before = "concat (map ?block (take i ?ies))"
  let ?after = "concat (map ?block (drop (Suc i) ?ies))"
  let ?sub = "below fuel fs root prefix entries (i, entries ! i)"
  let ?levels = "filter (at_level prefix) (drop (length file) file')"
  from print_tree_Returned [OF assms(1,2)] assms(3)
  have new: "drop (length file) file' = concat (map ?block ?ies)"
      and file': "file' = file @ drop (length file) file'"
      and subs: "\<forall>ie\<in>set ?ies. isdir fs (join root (snd ie)) \<longrightarrow>
                   (\<exists>sub. print_tree fuel fs (join root (snd ie)) []
                            (prefix @ extension entries (fst ie)) = Some (Returned sub))"
    by auto
  have i: "i < length ?ies" using assms(4) by simp
  have nth: "?ies ! i = (i, entries ! i)" using assms(4) by (simp add: nth_enumerate_eq)
  have split: "?ies = take i ?ies @ (i, entries ! i) # drop (Suc i) ?ies"
    using id_take_nth_drop [OF i] nth by simp
  have line: "entry_line fs root prefix entries (i, entries ! i) = line"
    using assms(5,6) connector_nat [OF assms(4)] by (simp add: entry_line_def)
  have deeper: "prefix @ extension entries i = deeper"
    using assms(7) extension_nat [OF assms(4)] by simp
  have "concat (map ?block ?ies) = ?before @ [line] @ ?sub @ ?after"
    by (subst split) (simp add: line)
  with new file' have f: "file' = file @ ?before @ [line] @ ?sub @ ?after" by simp
  have "(i, entries ! i) \<in> set ?ies" using i nth by (metis nth_mem)
  with subs assms(5) deeper obtain sub where
      sub: "print_tree fuel fs (join root (entries ! i)) [] deeper = Some (Returned sub)"
    by fastforce
  then have sub_eq: "?sub = sub" using assms(5) deeper by (simp add: below_def)
  have call: "print_tree fuel fs (join root (entries ! i)) (file @ ?before @ [line]) deeper
              = Some (Returned (file @ ?before @ [line] @ ?sub))"
    using print_tree_frame [of fuel fs "join root (entries ! i)" "file @ ?before @ [line]" deeper]
      sub sub_eq by simp
  have lv: "?levels = map (entry_line fs root prefix entries) ?ies"
    using level_lines [OF assms(1,2)] assms(3) by simp
  have b: "filter (at_level prefix) ?before = take i ?levels"
    by (simp add: filter_at_level_blocks lv take_map)
  have a: "filter (at_level prefix) ?after = drop (Suc i) ?levels"
    by (simp add: filter_at_level_blocks lv drop_map)
  have s: "filter (at_level prefix) ?sub = []"
    using not_at_level_below [of _ fuel fs root prefix entries "(i, entries ! i)"]
    by (auto simp: filter_empty_conv)
  from f call b s a show ?thesis by blast
qed

theorem directory_line_then_subtree_witness:
  "print_tree (Suc 1) example_fs (str ''root'') [] [] = Some (Returned example_out)
   \<and> listdir example_fs (str ''root'') = Inr [str ''sub'', str ''b.txt'', str ''lib'', str ''a.txt'', str ''build'', str ''X.class'', str ''gone'']
   \<and> 3 < length (filter retained (sort [str ''sub'', str ''b.txt'', str ''lib'', str ''a.txt'', str ''build'', str ''X.class'', str ''gone'']))
   \<and> isdir example_fs (join (str ''root'') ((filter retained (sort [str ''sub'', str ''b.txt'', str ''lib'', str ''a.txt'', str ''build'', str ''X.class'', str ''gone''])) ! 3))
   \<and> (\<exists>before sub after.
           example_out = ([] :: sink) @ before @ [(([] :: pystr) @ (if 3 = length (filter retained (sort [str ''sub'', str ''b.txt'', str ''lib'', str ''a.txt'', str ''build'', str ''X.class'', str ''gone''])) - 1 then [0x2514, 0x2500, 0x2500, 0x20] else [0x251C, 0x2500, 0x2500, 0x20]) @ (filter retained (sort [str ''sub'', str ''b.txt'', str ''lib'', str ''a.txt'', str ''build'', str ''X.class'', str ''gone''])) ! 3 @ str ''/'' @ str ''\<newline>'')] @ sub @ after
           \<and> print_tree 1 example_fs (join (str ''root'') ((filter retained (sort [str ''sub'', str ''b.txt'', str ''lib'', str ''a.txt'', str ''build'', str ''X.class'', str ''gone''])) ! 3)) (([] :: sink) @ before @ [(([] :: pystr) @ (if 3 = length (filter retained (sort [str ''sub'', str ''b.txt'', str ''lib'', str ''a.txt'', str ''build'', str ''X.class'', str ''gone''])) - 1 then [0x2514, 0x2500, 0x2500, 0x20] else [0x251C, 0x2500, 0x2500, 0x20]) @ (filter retained (sort [str ''sub'', str ''b.txt'', str ''lib'', str ''a.txt'', str ''build'', str ''X.class'', str ''gone''])) ! 3 @ str ''/'' @ str ''\<newline>'')]) (([] :: pystr) @ (if 3 = length (filter retained (sort [str ''sub'', str ''b.txt'', str ''lib'', str ''a.txt'', str ''build'', str ''X.class'', str ''gone''])) - 1 then str ''    '' else [0x2502, 0x20, 0x20, 0x20]))
               = Some (Returned (([] :: sink) @ before @ [(([] :: pystr) @ (if 3 = length (filter retained (sort [str ''sub'', str ''b.txt'', str ''lib'', str ''a.txt'', str ''build'', str ''X.class'', str ''gone''])) - 1 then [0x2514, 0x2500, 0x2500, 0x20] else [0x251C, 0x2500, 0x2500, 0x20]) @ (filter retained (sort [str ''sub'', str ''b.txt'', str ''lib'', str ''a.txt'', str ''build'', str ''X.class'', str ''gone''])) ! 3 @ str ''/'' @ str ''\<newline>'')] @ sub))
           \<and> filter (at_level ([] :: pystr)) before
               = take 3 (filter (at_level ([] :: pystr)) (drop (length ([] :: sink)) example_out))
           \<and> filter (at_level ([] :: pystr)) sub = []
           \<and> filter (at_level ([] :: pystr)) after
               = drop (Suc 3) (filter (at_level ([] :: pystr)) (drop (length ([] :: sink)) example_out)))"
  (is "?A \<and> ?B \<and> ?C \<and> ?D \<and> ?E")
proof -
  have a: ?A using example_run by (simp only: Suc_1)
  have b: ?B by (simp add: example_listdir)
  have c: ?C unfolding example_entries by simp
  have d: ?D unfolding example_entries
    by (simp add: example_isdir join_def startswith_def endswith_def str_def)
  from directory_line_then_subtree [OF a b refl c d refl refl] have e: ?E .
  show ?thesis by (rule conjI [OF a conjI [OF b conjI [OF c conjI [OF d e]]]])
qed

section \<open>Termination\<close>

lemma for_entries_returns:
  assumes "\<And>ie file q. ie \<in> set rest \<Longrightarrow> isdir fs (join root (snd ie)) \<Longrightarrow>
             \<exists>r. rec (join root (snd ie)) file q = Some r"
  shows "\<exists>r. for_entries rec fs root prefix entries rest file = Some r"
  using assms
proof (induction rest arbitrary: "file")
  case Nil
  show ?case by simp
next
  case (Cons ie rest)
  obtain i entry where ie: "ie = (i, entry)" by (cases ie)
  have rest: "\<exists>r. for_entries rec fs root prefix entries rest f = Some r" for f
    by (rule Cons.IH) (rule Cons.prems, simp_all)
  show ?case
  proof (cases "isdir fs (join root entry)")
    case False
    with rest show ?thesis by (simp add: ie)
  next
    case True
    let ?f = "file_write file (prefix @ connector entries i @ entry @ str ''/'' @ str ''\<newline>'')"
    from Cons.prems [of ie ?f "prefix @ extension entries i"] True
    obtain r where r: "rec (join root entry) ?f (prefix @ extension entries i) = Some r"
      by (auto simp: ie)
    show ?thesis
    proof (cases r)
      case (Returned f')
      with r True rest [of f'] show ?thesis by (simp add: ie)
    next
      case (Raised e f')
      with r True show ?thesis by (simp add: ie)
    qed
  qed
qed

lemma print_tree_cycle_never_returns:
  "print_tree fuel cyclic_fs root file prefix = None"
proof (induction fuel arbitrary: root "file" prefix)
  case 0
  show ?case by simp
next
  case (Suc fuel)
  have "filter retained (sort [str ''a'']) = [str ''a'']"
    by (simp add: retained_def endswith_def str_def)
  then show ?case
    by (simp add: cyclic_fs_def Suc.IH [unfolded cyclic_fs_def])
qed

text \<open>
  C10. If every chain of retained subdirectories below \<open>root\<close> is finite (the tree
  walked from \<open>root\<close> is finite and has no cycle), then \<open>print_tree\<close> on \<open>root\<close>
  returns or raises: some depth of recursion suffices, for every sink and prefix, and
  so does every greater depth.
\<close>

theorem print_tree_terminates:
  assumes "finite_below fs root"
  shows "\<exists>fuel. \<forall>k\<ge>fuel. \<forall>file prefix. \<exists>r. print_tree k fs root file prefix = Some r"
  using assms
proof (induction rule: finite_below.induct)
  case (unlistable d e)
  have "\<exists>r. print_tree k fs d f q = Some r" if "1 \<le> k" for k f q
  proof -
    from that obtain n where "k = Suc n" by (cases k) simp_all
    with unlistable show ?thesis by simp
  qed
  then show ?case by blast
next
  case (listable d names)
  let ?entries = "filter retained (sort names)"
  let ?dirs = "{x \<in> set names. retained x \<and> isdir fs (join d x)}"
  have "\<forall>x\<in>?dirs. \<exists>fuel. \<forall>k\<ge>fuel. \<forall>f q. \<exists>r. print_tree k fs (join d x) f q = Some r"
    using listable.IH by blast
  then obtain need where
      need: "\<And>x k f q. x \<in> ?dirs \<Longrightarrow> need x \<le> k \<Longrightarrow> \<exists>r. print_tree k fs (join d x) f q = Some r"
    by metis
  let ?fuel = "Suc (Max (need ` ?dirs))"
  have "\<exists>r. print_tree k fs d f q = Some r" if k: "?fuel \<le> k" for k f q
  proof -
    from k obtain n where n: "k = Suc n" "Max (need ` ?dirs) \<le> n" by (cases k) simp_all
    have "\<exists>r. for_entries (print_tree n fs) fs d q ?entries (enumerate 0 ?entries) f = Some r"
    proof (rule for_entries_returns)
      fix ie f' q'
      assume ie: "ie \<in> set (enumerate 0 ?entries)" and dir: "isdir fs (join d (snd ie))"
      from set_enumerate_snd [OF ie] dir have x: "snd ie \<in> ?dirs" by simp
      then have "need (snd ie) \<le> Max (need ` ?dirs)" by simp
      with n(2) have "need (snd ie) \<le> n" by simp
      from need [OF x this] show "\<exists>r. print_tree n fs (join d (snd ie)) f' q' = Some r" .
    qed
    with listable.hyps n(1) show ?thesis by (simp add: Let_def)
  qed
  then show ?case by blast
qed

lemmas path_defs = join_def startswith_def endswith_def str_def

lemma example_lib_finite: "finite_below example_fs (str ''root/lib'')"
proof (rule finite_below.listable)
  show "listdir example_fs (str ''root/lib'') = Inr [str ''m.txt'']"
    by (simp add: example_listdir str_def)
next
  fix y assume "y \<in> set [str ''m.txt'']" "isdir example_fs (join (str ''root/lib'') y)"
  then have False
    by (simp add: example_isdir path_defs)
  then show "finite_below example_fs (join (str ''root/lib'') y)" ..
qed

lemma example_sub_finite: "finite_below example_fs (str ''root/sub'')"
proof (rule finite_below.listable)
  show "listdir example_fs (str ''root/sub'') = Inr [str ''c.txt'', str ''.git'']"
    by (simp add: example_listdir str_def)
next
  fix y assume y: "y \<in> set [str ''c.txt'', str ''.git'']" and r: "retained y"
     and d: "isdir example_fs (join (str ''root/sub'') y)"
  from y have "y = str ''c.txt'' \<or> y = str ''.git''" by simp
  then have False
  proof
    assume "y = str ''c.txt''"
    with d show False by (simp add: example_isdir path_defs)
  next
    assume "y = str ''.git''"
    with r show False by (simp add: retained_def)
  qed
  then show "finite_below example_fs (join (str ''root/sub'') y)" ..
qed

lemma example_finite_below: "finite_below example_fs (str ''root'')"
proof (rule finite_below.listable)
  show "listdir example_fs (str ''root'')
        = Inr [str ''sub'', str ''b.txt'', str ''lib'', str ''a.txt'', str ''build'',
               str ''X.class'', str ''gone'']"
    by (simp add: example_listdir)
next
  fix x
  assume x: "x \<in> set [str ''sub'', str ''b.txt'', str ''lib'', str ''a.txt'', str ''build'',
                        str ''X.class'', str ''gone'']"
     and r: "retained x" and d: "isdir example_fs (join (str ''root'') x)"
  from x consider "x = str ''sub''" | "x = str ''b.txt''" | "x = str ''lib''"
    | "x = str ''a.txt''" | "x = str ''build''" | "x = str ''X.class''" | "x = str ''gone''"
    by auto
  then show "finite_below example_fs (join (str ''root'') x)"
  proof cases
    case 1
    then have "join (str ''root'') x = str ''root/sub''" by (simp add: path_defs)
    with example_sub_finite show ?thesis by simp
  next
    case 2
    with d show ?thesis by (simp add: example_isdir path_defs)
  next
    case 3
    then have "join (str ''root'') x = str ''root/lib''" by (simp add: path_defs)
    with example_lib_finite show ?thesis by simp
  next
    case 4
    with d show ?thesis by (simp add: example_isdir path_defs)
  next
    case 5
    with r show ?thesis by (simp add: retained_def)
  next
    case 6
    with r show ?thesis by (simp add: retained_def endswith_def str_def)
  next
    case 7
    with d show ?thesis by (simp add: example_isdir path_defs)
  qed
qed

theorem print_tree_terminates_witness:
  "finite_below example_fs (str ''root'')
   \<and> (\<exists>fuel. \<forall>k\<ge>fuel. \<forall>file prefix. \<exists>r.
          print_tree k example_fs (str ''root'') file prefix = Some r)"
  using example_finite_below print_tree_terminates [OF example_finite_below]
  by (rule conjI)

section \<open>Failures\<close>

lemma loop_Raised:
  "for_entries (print_tree fuel fs) fs root prefix entries rest [] = Some (Raised e out) \<Longrightarrow>
   \<exists>ie\<in>set rest. isdir fs (join root (snd ie))
      \<and> (\<exists>out'. print_tree fuel fs (join root (snd ie)) []
                    (prefix @ extension entries (fst ie)) = Some (Raised e out'))"
proof (induction rest arbitrary: out)
  case Nil
  then show ?case by simp
next
  case (Cons ie rest)
  let ?loop = "for_entries (print_tree fuel fs) fs root prefix entries"
  let ?l = "entry_line fs root prefix entries ie"
  let ?sub = "print_tree fuel fs (join root (snd ie)) [] (prefix @ extension entries (fst ie))"
  have later: "\<exists>out'. ?loop rest [] = Some (Raised e out')"
    if "?loop rest [] = Some r'" "Raised e out = prepend pre r'" for r' pre
    using that by (cases r') simp_all
  show ?case
  proof (cases "isdir fs (join root (snd ie))")
    case False
    with Cons.prems obtain r' where "?loop rest [] = Some r'" "Raised e out = prepend [?l] r'"
      by (auto simp: loop_Cons)
    from later [OF this] Cons.IH show ?thesis by auto
  next
    case True
    from Cons.prems True obtain rs where rs: "?sub = Some rs"
      by (cases ?sub) (simp_all add: loop_Cons)
    show ?thesis
    proof (cases rs)
      case (Raised e' s)
      with Cons.prems True rs have "e' = e" by (simp add: loop_Cons)
      with Raised rs True show ?thesis by auto
    next
      case (Returned s)
      with Cons.prems True rs obtain r' where "?loop rest [] = Some r'"
          "Raised e out = prepend (?l # s) r'"
        by (auto simp: loop_Cons)
      from later [OF this] Cons.IH show ?thesis by auto
    qed
  qed
qed

lemma in_enumerate_retained:
  assumes "ie \<in> set (enumerate 0 (filter retained (sort names)))"
  shows "snd ie \<in> set names \<and> retained (snd ie)"
  using set_enumerate_snd [OF assms] by simp

lemma raised_is_listing_failure:
  "print_tree fuel fs root file prefix = Some (Raised e file') \<Longrightarrow>
   \<exists>es. descends fs root es \<and> listdir fs (foldl join root es) = Inl e"
proof (induction fuel arbitrary: root "file" file' prefix)
  case 0
  then show ?case by simp
next
  case (Suc fuel)
  show ?case
  proof (cases "listdir fs root")
    case (Inl e')
    with Suc.prems have "e' = e" by simp
    with Inl have "descends fs root [] \<and> listdir fs (foldl join root []) = Inl e" by simp
    then show ?thesis by blast
  next
    case (Inr names)
    let ?entries = "filter retained (sort names)"
    from print_tree_new_lines [OF Suc.prems] obtain r0 where
        r0: "print_tree (Suc fuel) fs root [] prefix = Some r0" "Raised e file' = prepend file r0"
      by blast
    from r0(2) obtain out where "r0 = Raised e out" by (cases r0) simp_all
    with r0(1) Inr
    have "for_entries (print_tree fuel fs) fs root prefix ?entries (enumerate 0 ?entries) []
          = Some (Raised e out)"
      by (simp add: Let_def)
    from loop_Raised [OF this] obtain ie out' where
        ie: "ie \<in> set (enumerate 0 ?entries)" and dir: "isdir fs (join root (snd ie))"
        and sub: "print_tree fuel fs (join root (snd ie)) [] (prefix @ extension ?entries (fst ie))
                  = Some (Raised e out')"
      by blast
    from Suc.IH [OF sub] obtain es where
        es: "descends fs (join root (snd ie)) es" "listdir fs (foldl join (join root (snd ie)) es) = Inl e"
      by blast
    from in_enumerate_retained [OF ie] Inr dir es
    have "descends fs root (snd ie # es) \<and> listdir fs (foldl join root (snd ie # es)) = Inl e"
      by simp
    then show ?thesis by blast
  qed
qed

lemma returned_lists_all:
  "print_tree fuel fs root file prefix = Some (Returned file') \<Longrightarrow> descends fs root es \<Longrightarrow>
   \<exists>names. listdir fs (foldl join root es) = Inr names"
proof (induction es arbitrary: fuel root "file" file' prefix)
  case Nil
  then show ?case
    by (cases fuel; cases "listdir fs root") simp_all
next
  case (Cons x es)
  from Cons.prems(2) obtain names where
      names: "listdir fs root = Inr names" and x: "x \<in> set names" "retained x"
      and dir: "isdir fs (join root x)" and d: "descends fs (join root x) es"
    by (cases "listdir fs root") simp_all
  let ?entries = "filter retained (sort names)"
  from x have "x \<in> set ?entries" by simp
  then obtain i where "i < length ?entries" "?entries ! i = x"
    unfolding in_set_conv_nth by blast
  then have ie: "(i, x) \<in> set (enumerate 0 ?entries)"
    by (simp add: in_set_enumerate_eq)
  from print_tree_Returned [OF Cons.prems(1) names] ie dir
  obtain n sub where
      "print_tree n fs (join root x) [] (prefix @ extension ?entries i) = Some (Returned sub)"
    by fastforce
  from Cons.IH [OF this d] show ?case by simp
qed

lemma for_entries_ending:
  assumes rec: "\<And>path f f' q. length f = length f' \<Longrightarrow>
                  map_option ending (rec' path f q) = map_option ending (rec path f' q)"
      and "length file = length file'"
  shows "map_option ending (for_entries rec' (fs\<lparr>getsize := g\<rparr>) root prefix entries rest file)
         = map_option ending (for_entries rec fs root prefix entries rest file')"
  using assms(2)
proof (induction rest arbitrary: "file" file')
  case Nil
  then show ?case by simp
next
  case (Cons ie rest)
  obtain i entry where ie: "ie = (i, entry)" by (cases ie)
  show ?case
  proof (cases "isdir fs (join root entry)")
    case False
    have "map_option ending (for_entries rec' (fs\<lparr>getsize := g\<rparr>) root prefix entries rest
            (file_write file (prefix @ connector entries i @ entry @ str '' ''
               @ status (fs\<lparr>getsize := g\<rparr>) (join root entry) @ str ''\<newline>'')))
          = map_option ending (for_entries rec fs root prefix entries rest
            (file_write file' (prefix @ connector entries i @ entry @ str '' ''
               @ status fs (join root entry) @ str ''\<newline>'')))"
      by (rule Cons.IH) (simp add: file_write_def Cons.prems)
    with False show ?thesis by (simp add: ie)
  next
    case True
    let ?l = "prefix @ connector entries i @ entry @ str ''/'' @ str ''\<newline>''"
    let ?q = "prefix @ extension entries i"
    have eq: "map_option ending (rec' (join root entry) (file_write file ?l) ?q)
              = map_option ending (rec (join root entry) (file_write file' ?l) ?q)"
      by (rule rec) (simp add: file_write_def Cons.prems)
    show ?thesis
    proof (cases "rec' (join root entry) (file_write file ?l) ?q")
      case None
      with eq have "rec (join root entry) (file_write file' ?l) ?q = None" by simp
      with None True show ?thesis by (simp add: ie)
    next
      case (Some r')
      with eq obtain r where r: "rec (join root entry) (file_write file' ?l) ?q = Some r"
          and e: "ending r' = ending r"
        by (cases "rec (join root entry) (file_write file' ?l) ?q") simp_all
      show ?thesis
      proof (cases r')
        case (Raised x f1)
        with e obtain f2 where "r = Raised x f2" "length f1 = length f2"
          by (cases r) simp_all
        with Raised Some r True show ?thesis by (simp add: ie)
      next
        case (Returned f1)
        with e obtain f2 where f2: "r = Returned f2" "length f1 = length f2"
          by (cases r) simp_all
        from Cons.IH [OF f2(2)] Returned f2(1) Some r True show ?thesis by (simp add: ie)
      qed
    qed
  qed
qed

lemma print_tree_ending:
  "length file = length file' \<Longrightarrow>
   map_option ending (print_tree fuel (fs\<lparr>getsize := g\<rparr>) root file prefix)
   = map_option ending (print_tree fuel fs root file' prefix)"
proof (induction fuel arbitrary: root "file" file' prefix)
  case 0
  show ?case by simp
next
  case (Suc fuel)
  show ?case
  proof (cases "listdir fs root")
    case (Inl e)
    with Suc.prems show ?thesis by simp
  next
    case (Inr names)
    have "map_option ending (for_entries (print_tree fuel (fs\<lparr>getsize := g\<rparr>)) (fs\<lparr>getsize := g\<rparr>)
            root prefix es ies file)
          = map_option ending (for_entries (print_tree fuel fs) fs root prefix es ies file')"
      for es ies
      by (rule for_entries_ending) (rule Suc.IH, simp, rule Suc.prems)
    with Inr show ?thesis by (simp add: Let_def)
  qed
qed

lemma example_top_run:
  "print_tree 2 example_fs (str ''top'') [] []
   = Some (Raised (OSError 13) [[0x251C, 0x2500, 0x2500, 0x20] @ str ''d/\<newline>''])"
proof -
  have d: "print_tree (Suc 0) example_fs [116, 111, 112, 47, 100] [] q = Some (Raised (OSError 13) [])"
    for q
    by (simp add: example_listdir str_def)
  have "print_tree (Suc (Suc 0)) example_fs (str ''top'') [] []
        = Some (Raised (OSError 13) [[0x251C, 0x2500, 0x2500, 0x20] @ str ''d/\<newline>''])"
    by (simp add: print_tree_Suc_Nil [where fuel = "Suc 0" and names = "[str ''z.txt'', str ''d'']"]
          loop_Cons entry_line_def d example_listdir example_isdir example_getsize eval_defs
          del: for_entries.simps(2) print_tree.simps)
  then show ?thesis by (simp only: numeral_2_eq_2)
qed

text \<open>
  C6. A directory that cannot be listed makes \<open>print_tree\<close> raise the error of
  \<open>listdir\<close> unchanged, with nothing more written; when any directory that the walk
  reaches through retained directories cannot be listed, a run that ends ends by
  raising; and whatever \<open>print_tree\<close> raises is the listing error of such a directory.
  A size that cannot be read is caught: the loop writes the entry's line with \<open>[?]\<close>
  and goes on with the remaining entries, and how a run ends and how many lines it
  writes do not depend on what \<open>getsize\<close> answers.
\<close>

theorem listing_failure_propagates_size_failure_caught:
  "(listdir fs root = Inl e \<longrightarrow>
      print_tree (Suc fuel) fs root file prefix = Some (Raised e file))
   \<and> (descends fs root es \<and> listdir fs (foldl join root es) = Inl e
        \<and> print_tree fuel fs root file prefix = Some r \<longrightarrow>
      (\<exists>e' file'. r = Raised e' file'))
   \<and> (print_tree fuel fs root file prefix = Some (Raised e file') \<longrightarrow>
      (\<exists>ds. descends fs root ds \<and> listdir fs (foldl join root ds) = Inl e))
   \<and> (\<not> isdir fs (join root entry) \<and> getsize fs (join root entry) = Inl e \<longrightarrow>
      for_entries rec fs root prefix entries ((i, entry) # rest) file
      = for_entries rec fs root prefix entries rest
          (file @ [prefix @ connector entries i @ entry @ str '' [?]'' @ str ''\<newline>'']))
   \<and> map_option ending (print_tree fuel (fs\<lparr>getsize := g\<rparr>) root file prefix)
       = map_option ending (print_tree fuel fs root file prefix)"
proof (intro conjI impI)
  assume "listdir fs root = Inl e"
  then show "print_tree (Suc fuel) fs root file prefix = Some (Raised e file)" by simp
next
  assume a: "descends fs root es \<and> listdir fs (foldl join root es) = Inl e
             \<and> print_tree fuel fs root file prefix = Some r"
  show "\<exists>e' file'. r = Raised e' file'"
  proof (cases r)
    case (Raised e' file')
    then show ?thesis by blast
  next
    case (Returned file')
    with a have "print_tree fuel fs root file prefix = Some (Returned file')" by simp
    from returned_lists_all [OF this] a show ?thesis by fastforce
  qed
next
  assume "print_tree fuel fs root file prefix = Some (Raised e file')"
  then show "\<exists>ds. descends fs root ds \<and> listdir fs (foldl join root ds) = Inl e"
    by (rule raised_is_listing_failure)
next
  assume "\<not> isdir fs (join root entry) \<and> getsize fs (join root entry) = Inl e"
  then show "for_entries rec fs root prefix entries ((i, entry) # rest) file
      = for_entries rec fs root prefix entries rest
          (file @ [prefix @ connector entries i @ entry @ str '' [?]'' @ str ''\<newline>''])"
    by (cases e) (simp add: status_def file_write_def str_def)
next
  show "map_option ending (print_tree fuel (fs\<lparr>getsize := g\<rparr>) root file prefix)
       = map_option ending (print_tree fuel fs root file prefix)"
    by (rule print_tree_ending) simp
qed

theorem listing_failure_propagates_size_failure_caught_witness:
  "listdir example_fs (str ''top/d'') = Inl (OSError 13)
   \<and> print_tree (Suc 0) example_fs (str ''top/d'') [] [] = Some (Raised (OSError 13) [])
   \<and> (descends example_fs (str ''top'') [str ''d'']
       \<and> listdir example_fs (foldl join (str ''top'') [str ''d'']) = Inl (OSError 13)
       \<and> print_tree 2 example_fs (str ''top'') [] []
           = Some (Raised (OSError 13) [[0x251C, 0x2500, 0x2500, 0x20] @ str ''d/\<newline>'']))
   \<and> (\<exists>e' file'. Raised (OSError 13) [[0x251C, 0x2500, 0x2500, 0x20] @ str ''d/\<newline>'']
                    = Raised e' file')
   \<and> (\<exists>ds. descends example_fs (str ''top'') ds
            \<and> listdir example_fs (foldl join (str ''top'') ds) = Inl (OSError 13))
   \<and> (\<not> isdir example_fs (join (str ''root'') (str ''gone''))
       \<and> getsize example_fs (join (str ''root'') (str ''gone'')) = Inl (OSError 2))
   \<and> for_entries (\<lambda>p f q. None) example_fs (str ''root'') [] [str ''gone'']
         ((0, str ''gone'') # []) []
       = for_entries (\<lambda>p f q. None) example_fs (str ''root'') [] [str ''gone''] []
           ([] @ [[] @ connector [str ''gone''] 0 @ str ''gone'' @ str '' [?]'' @ str ''\<newline>''])"
  (is "?A \<and> ?B \<and> ?C \<and> ?D \<and> ?E \<and> ?F \<and> ?G")
proof -
  note t = listing_failure_propagates_size_failure_caught [where fs = example_fs]
  have top: "print_tree 2 example_fs (str ''top'') [] []
           = Some (Raised (OSError 13) [[0x251C, 0x2500, 0x2500, 0x20] @ str ''d/\<newline>''])"
    by (rule example_top_run)
  have a: ?A by (simp add: example_listdir str_def)
  have b: ?B
    by (rule t [where root = "str ''top/d''" and e = "OSError 13" and fuel = 0, THEN conjunct1, THEN mp, OF a])
  have c: ?C
    using top by (simp add: example_listdir example_isdir retained_def path_defs)
  have d: ?D
    by (rule t [where root = "str ''top''" and es = "[str ''d'']" and e = "OSError 13"
                  and fuel = 2,
                THEN conjunct2, THEN conjunct1, THEN mp, OF c])
  have e: ?E
    by (rule t [where root = "str ''top''" and e = "OSError 13"
                  and fuel = 2,
                THEN conjunct2, THEN conjunct2, THEN conjunct1, THEN mp, OF top])
  have f: ?F
    by (simp add: example_isdir example_getsize path_defs)
  have g: ?G
    by (rule t [where root = "str ''root''" and entry = "str ''gone''" and e = "OSError 2",
                THEN conjunct2, THEN conjunct2, THEN conjunct2, THEN conjunct1, THEN mp, OF f])
  show ?thesis
    by (rule conjI [OF a conjI [OF b conjI [OF c conjI [OF d conjI [OF e conjI [OF f g]]]]]])
qed

section \<open>The report written by main\<close>

lemma join_docs:
  "join root (str ''docs/'')
   = (if root = [] \<or> endswith root (str ''/'') then root @ str ''docs/''
      else root @ str ''/docs/'')"
  by (simp add: join_def startswith_def str_def)

lemma join_outdir:
  "join (join root (str ''docs/'')) (str ''project_tree.txt'')
   = join root (str ''docs/'') @ str ''project_tree.txt''"
proof -
  have "endswith (x @ str ''docs/'') (str ''/'')" for x
    by (simp add: endswith_def str_def)
  then have "endswith (join root (str ''docs/'')) (str ''/'')"
    by (simp add: join_docs) (simp add: endswith_def str_def)
  then show ?thesis
    by (simp add: join_def [of "join root (str ''docs/'')"] startswith_def) (simp add: str_def)
qed

lemma written_Writes: "written (map Write xs @ evs) = concat xs @ written evs"
  by (induction xs) simp_all

text \<open>What \<open>main\<close> does once the directory is made and the file is open.\<close>

lemma main_opened:
  assumes "root = (if 1 < length (argv env) then argv env ! 1 else str ''.'')"
      and "outdir = join root (str ''docs/'')"
      and "outfile = outdir @ str ''project_tree.txt''"
      and "makedirs env outdir = None"
      and "open_w env outfile = None"
      and "header = [str ''Generated: '' @ now env @ str '' (local)\<newline>\<newline>'',
                     basename (abspath env root) @ str ''/'' @ str ''\<newline>'']"
  shows "main fuel env =
           (case print_tree fuel (tree env) root [] [] of
              None \<Rightarrow> None
            | Some (Raised e out) \<Rightarrow>
                Some ([Makedirs outdir True, Open outfile (str ''w'') (str ''utf-8'')]
                      @ map Write (header @ out) @ [Close], Some e)
            | Some (Returned out) \<Rightarrow>
                Some ([Makedirs outdir True, Open outfile (str ''w'') (str ''utf-8'')]
                      @ map Write (header @ out)
                      @ [Close, Print (str ''Saved tree to '' @ outfile)], None))"
proof -
  have out: "join outdir (str ''project_tree.txt'') = outfile"
    using assms(2,3) by (simp add: join_outdir)
  have fr: "print_tree fuel (tree env) root header []
            = map_option (prepend header) (print_tree fuel (tree env) root [] [])"
    by (rule print_tree_frame)
  have m: "main fuel env =
           (case print_tree fuel (tree env) root header [] of
              None \<Rightarrow> None
            | Some (Raised e f') \<Rightarrow>
                Some ([Makedirs outdir True, Open outfile (str ''w'') (str ''utf-8'')]
                      @ map Write f' @ [Close], Some e)
            | Some (Returned f') \<Rightarrow>
                Some ([Makedirs outdir True, Open outfile (str ''w'') (str ''utf-8'')]
                      @ map Write f'
                      @ [Close, Print (str ''Saved tree to '' @ outfile)], None))"
    unfolding main_def Let_def assms(1) [symmetric] assms(2) [symmetric] out
    using assms(4,5,6) by (simp add: file_write_def)
  show ?thesis
  proof (cases "print_tree fuel (tree env) root [] []")
    case None
    with m fr show ?thesis by simp
  next
    case (Some r)
    with m fr show ?thesis by (cases r) simp_all
  qed
qed



section \<open>Runs on the same tree\<close>

lemma sort_mset_cong:
  fixes xs ys :: "'a :: linorder list"
  shows "mset xs = mset ys \<Longrightarrow> sort xs = sort ys"
  by (rule properties_for_sort) simp_all

lemma for_entries_same_view:
  assumes "isdir fs1 = isdir fs2" and "getsize fs1 = getsize fs2"
  shows "for_entries rec fs1 root prefix entries rest file
         = for_entries rec fs2 root prefix entries rest file"
proof (induction rest arbitrary: "file")
  case Nil
  show ?case by simp
next
  case (Cons ie rest)
  obtain i entry where ie: "ie = (i, entry)" by (cases ie)
  have st: "status fs1 p = status fs2 p" for p
    using assms(2) by (simp add: status_def)
  have dir: "isdir fs1 p = isdir fs2 p" for p
    using assms(1) by simp
  show ?case
  proof (cases "isdir fs2 (join root entry)")
    case False
    then show ?thesis by (simp add: ie dir st Cons.IH)
  next
    case True
    let ?call = "rec (join root entry)
                   (file_write file (prefix @ connector entries i @ entry @ str ''/'' @ str ''\<newline>''))
                   (prefix @ extension entries i)"
    show ?thesis
    proof (cases ?call)
      case None
      with True show ?thesis by (simp add: ie dir)
    next
      case (Some r)
      with True show ?thesis by (cases r) (simp_all add: ie dir Cons.IH)
    qed
  qed
qed

lemma print_tree_same_view:
  assumes "isdir fs1 = isdir fs2" and "getsize fs1 = getsize fs2"
      and "\<forall>p. rel_sum (=) (\<lambda>xs ys. mset xs = mset ys) (listdir fs1 p) (listdir fs2 p)"
  shows "print_tree fuel fs1 root file prefix = print_tree fuel fs2 root file prefix"
proof (induction fuel arbitrary: root "file" prefix)
  case 0
  show ?case by simp
next
  case (Suc fuel)
  have rec: "print_tree fuel fs1 = print_tree fuel fs2"
    by (intro ext) (rule Suc.IH)
  from assms(3) have rel: "rel_sum (=) (\<lambda>xs ys. mset xs = mset ys) (listdir fs1 root) (listdir fs2 root)"
    by blast
  show ?case
  proof (cases "listdir fs1 root")
    case (Inl e)
    with rel have "listdir fs2 root = Inl e" by (cases "listdir fs2 root") simp_all
    with Inl show ?thesis by simp
  next
    case (Inr names)
    with rel obtain names' where n': "listdir fs2 root = Inr names'" "mset names = mset names'"
      by (cases "listdir fs2 root") simp_all
    from n'(2) have "sort names = sort names'" by (rule sort_mset_cong)
    with Inr n'(1) rec show ?thesis
      by (simp add: Let_def for_entries_same_view [OF assms(1,2)])
  qed
qed

text \<open>
  C9. Take two runs of \<open>main\<close> with the same arguments and working directory on the
  same tree: the same entries are directories, sizes read the same, and each
  directory lists the same names, in whatever order the system delivers them; the
  clock may differ. If the first run opens the report and ends, the second ends the
  same way, and the two reports are equal character by character after the
  timestamp of the first line.
\<close>

theorem reruns_differ_only_in_timestamp:
  assumes "argv e1 = argv e2" and "abspath e1 = abspath e2"
      and "makedirs e1 = makedirs e2" and "open_w e1 = open_w e2"
      and "isdir (tree e1) = isdir (tree e2)" and "getsize (tree e1) = getsize (tree e2)"
      and "\<forall>p. rel_sum (=) (\<lambda>xs ys. mset xs = mset ys)
                 (listdir (tree e1) p) (listdir (tree e2) p)"
      and "root = (if 1 < length (argv e1) then argv e1 ! 1 else str ''.'')"
      and "makedirs e1 (join root (str ''docs/'')) = None"
      and "open_w e1 (join root (str ''docs/'') @ str ''project_tree.txt'') = None"
      and "main fuel e1 = Some (trace1, raised)"
  shows "\<exists>trace2 rest.
           main fuel e2 = Some (trace2, raised)
           \<and> written trace1 = str ''Generated: '' @ now e1 @ str '' (local)\<newline>'' @ rest
           \<and> written trace2 = str ''Generated: '' @ now e2 @ str '' (local)\<newline>'' @ rest"
proof -
  let ?outdir = "join root (str ''docs/'')"
  let ?outfile = "?outdir @ str ''project_tree.txt''"
  let ?opened = "[Makedirs ?outdir True, Open ?outfile (str ''w'') (str ''utf-8'')]"
  let ?name = "basename (abspath e1 root) @ str ''/'' @ str ''\<newline>''"
  have root2: "root = (if 1 < length (argv e2) then argv e2 ! 1 else str ''.'')"
    using assms(1,8) by simp
  have mk2: "makedirs e2 ?outdir = None" using assms(3,9) by simp
  have op2: "open_w e2 ?outfile = None" using assms(4,10) by simp
  have name2: "basename (abspath e2 root) @ str ''/'' @ str ''\<newline>'' = ?name"
    using assms(2) by simp
  note m1 = main_opened [OF assms(8) refl refl assms(9,10) refl, of fuel]
  note m2 = main_opened [OF root2 refl refl mk2 op2 refl, of fuel, unfolded name2]
  have same: "print_tree fuel (tree e2) root [] [] = print_tree fuel (tree e1) root [] []"
    by (rule print_tree_same_view [symmetric]) (rule assms(5,6,7))+
  from m1 assms(11) obtain r where r: "print_tree fuel (tree e1) root [] [] = Some r"
    by (cases "print_tree fuel (tree e1) root [] []") simp_all
  have nl: "str '' (local)\<newline>\<newline>'' = str '' (local)\<newline>'' @ str ''\<newline>''"
    by (simp add: str_def)
  let ?rest = "str ''\<newline>'' @ ?name @ concat (sink_of r)"
  let ?tail = "case r of Returned out \<Rightarrow> [Close, Print (str ''Saved tree to '' @ ?outfile)]
               | Raised e out \<Rightarrow> [Close]"
  let ?trace = "\<lambda>env. ?opened
       @ map Write ([str ''Generated: '' @ now env @ str '' (local)\<newline>\<newline>'', ?name] @ sink_of r)
       @ ?tail"
  have w: "written (?trace env) = str ''Generated: '' @ now env @ str '' (local)\<newline>'' @ ?rest"
    for env
    by (cases r) (simp_all add: written_Writes nl)
  have t1: "trace1 = ?trace e1" and ra: "raised = (case r of Returned out \<Rightarrow> None | Raised e out \<Rightarrow> Some e)"
    using m1 r assms(11) by (cases r; simp)+
  have t2: "main fuel e2 = Some (?trace e2, raised)"
    using m2 r same ra by (cases r) simp_all
  from t2 w [of e1] w [of e2] t1 show ?thesis by blast
qed

lemma example_main_run:
  "main 2 example_env
   = Some ([Makedirs (join (str ''root'') (str ''docs/'')) True,
            Open (join (str ''root'') (str ''docs/'') @ str ''project_tree.txt'')
              (str ''w'') (str ''utf-8'')]
           @ map Write ([str ''Generated: '' @ now example_env @ str '' (local)\<newline>\<newline>'',
                         basename (abspath example_env (str ''root'')) @ str ''/'' @ str ''\<newline>'']
                        @ example_out)
           @ [Close, Print (str ''Saved tree to ''
                              @ join (str ''root'') (str ''docs/'') @ str ''project_tree.txt'')],
           None)"
proof -
  have a: "str ''root'' = (if 1 < length (argv example_env) then argv example_env ! 1 else str ''.'')"
    by (simp add: example_env_def)
  have c: "makedirs example_env (join (str ''root'') (str ''docs/'')) = None"
    by (simp add: example_env_def)
  have d: "open_w example_env (join (str ''root'') (str ''docs/'') @ str ''project_tree.txt'') = None"
    by (simp add: example_env_def)
  have run: "print_tree 2 (tree example_env) (str ''root'') [] [] = Some (Returned example_out)"
    using example_run by (simp add: example_env_def)
  show ?thesis
    using main_opened [OF a refl refl c d refl, of 2] run by simp
qed

theorem reruns_differ_only_in_timestamp_witness:
  "argv example_env = argv example_env_later
   \<and> abspath example_env = abspath example_env_later
   \<and> makedirs example_env = makedirs example_env_later
   \<and> open_w example_env = open_w example_env_later
   \<and> isdir (tree example_env) = isdir (tree example_env_later)
   \<and> getsize (tree example_env) = getsize (tree example_env_later)
   \<and> (\<forall>p. rel_sum (=) (\<lambda>xs ys. mset xs = mset ys)
            (listdir (tree example_env) p) (listdir (tree example_env_later) p))
   \<and> now example_env \<noteq> now example_env_later
   \<and> listdir (tree example_env) (str ''root'') \<noteq> listdir (tree example_env_later) (str ''root'')
   \<and> (\<exists>trace2 rest.
         main 2 example_env_later = Some (trace2, None)
         \<and> written ([Makedirs (join (str ''root'') (str ''docs/'')) True,
                      Open (join (str ''root'') (str ''docs/'') @ str ''project_tree.txt'')
                        (str ''w'') (str ''utf-8'')]
                     @ map Write ([str ''Generated: '' @ now example_env @ str '' (local)\<newline>\<newline>'',
                                   basename (abspath example_env (str ''root'')) @ str ''/''
                                     @ str ''\<newline>'']
                                  @ example_out)
                     @ [Close, Print (str ''Saved tree to ''
                                        @ join (str ''root'') (str ''docs/'') @ str ''project_tree.txt'')])
             = str ''Generated: '' @ now example_env @ str '' (local)\<newline>'' @ rest
         \<and> written trace2
             = str ''Generated: '' @ now example_env_later @ str '' (local)\<newline>'' @ rest)"
  (is "?A \<and> ?B \<and> ?C \<and> ?D \<and> ?E \<and> ?F \<and> ?G \<and> ?H \<and> ?I \<and> ?J")
proof -
  have a: ?A and b: ?B and c: ?C and d: ?D and e: ?E and f: ?F
    by (simp_all add: example_env_later_def example_env_def)
  have g: ?G
  proof
    fix p
    show "rel_sum (=) (\<lambda>xs ys. mset xs = mset ys)
            (listdir (tree example_env) p) (listdir (tree example_env_later) p)"
      by (cases "listdir example_fs p") (simp_all add: example_env_later_def example_env_def)
  qed
  have h: ?H by (simp add: example_env_later_def example_env_def str_def)
  have i: ?I
    by (simp add: example_env_later_def example_env_def example_listdir) (simp add: str_def)
  have root: "str ''root'' = (if 1 < length (argv example_env) then argv example_env ! 1 else str ''.'')"
    by (simp add: example_env_def)
  have mk: "makedirs example_env (join (str ''root'') (str ''docs/'')) = None"
    by (simp add: example_env_def)
  have op: "open_w example_env (join (str ''root'') (str ''docs/'') @ str ''project_tree.txt'') = None"
    by (simp add: example_env_def)
  have j: ?J
    by (rule reruns_differ_only_in_timestamp [OF a b c d e f g root mk op example_main_run])
  show ?thesis
    by (rule conjI [OF a conjI [OF b conjI [OF c conjI [OF d conjI [OF e conjI [OF f
          conjI [OF g conjI [OF h conjI [OF i j]]]]]]]]])
qed

end
